theory Spec2Isabelle
  imports Complex_Main
begin

section \<open>The run manager of Codimension (src/utils/runmanager.py)\<close>

text \<open>
  The module is single-threaded and event-driven: Qt calls the slots of the
  \<^verbatim>\<open>RunManager\<close> and of its \<^verbatim>\<open>RemoteProcessWrapper\<close> objects one at a time, and a
  signal emitted by a wrapper runs the connected slot before \<^verbatim>\<open>emit\<close> returns.
  The embedding is a state record \<open>sys\<close> with an explicit store of wrapper objects
  (a wrapper is referred to by its address, a natural number), and every method is a
  function on \<open>sys\<close>. An exception that leaves a method is the value
  \<open>Inl (exception, state at the raise)\<close>.
\<close>

subsection \<open>Constants\<close>

definition KILLED :: int where
  "KILLED = - 1000000"

definition DISCONNECTED :: int where
  "DISCONNECTED = - 2000000"

text \<open>Seconds; \<^verbatim>\<open>time.time()\<close> is read as a real number.\<close>

definition HANDSHAKE_TIMEOUT :: real where
  "HANDSHAKE_TIMEOUT = 15"

datatype wrapper_state = STATE_PROLOGUE | STATE_RUNNING

datatype run_kind = RUN | PROFILE | DEBUG

datatype reuse_mode = NO_REUSE | REUSE | CLEAR_AND_REUSE

type_synonym procuuid = string

subsection \<open>Python values and exceptions\<close>

datatype pyexc =
    TypeError | ValueError | UnicodeDecodeError | KeyError
  | AttributeError | IndexError | OSError | OverflowError

text \<open>
  \<^verbatim>\<open>except (TypeError, ValueError)\<close>: \<^verbatim>\<open>UnicodeDecodeError\<close> is a subclass of
  \<^verbatim>\<open>ValueError\<close>.
\<close>

definition isTypeOrValueError :: "pyexc \<Rightarrow> bool" where
  "isTypeOrValueError e \<longleftrightarrow> e = TypeError \<or> e = ValueError \<or> e = UnicodeDecodeError"

text \<open>The value of the \<^verbatim>\<open>params\<close> field of a decoded message.\<close>

datatype json =
    JNull | JBool bool | JInt int | JStr string
  | JList "json list" | JDict "(string \<times> json) list"

text \<open>
  \<^verbatim>\<open>params[key]\<close>: a dictionary without the key raises \<^verbatim>\<open>KeyError\<close>; a value that is
  not a dictionary raises \<^verbatim>\<open>TypeError\<close> for a string key.
\<close>

fun subscript :: "json \<Rightarrow> string \<Rightarrow> pyexc + json" where
  "subscript (JDict kvs) k = (case map_of kvs k of None \<Rightarrow> Inl KeyError | Some v \<Rightarrow> Inr v)"
| "subscript _ k = Inl TypeError"

text \<open>
  An argument of a \<^verbatim>\<open>pyqtSignal(str, ...)\<close> or \<^verbatim>\<open>pyqtSignal(..., int)\<close>: \<^verbatim>\<open>emit\<close>
  raises \<^verbatim>\<open>TypeError\<close> for a value of another type (a Python bool is an int).
  The \<^verbatim>\<open>int\<close> of a signal is a C++ int of 32 bits: an integer in its range is delivered
  as it is. What \<^verbatim>\<open>emit\<close> does with an integer outside the range is decided by the Qt
  binding and not by this module (it may refuse the value with an exception or deliver
  another one in its place), so it is a parameter \<open>overflow\<close> of the conversion.
\<close>

fun asStr :: "json \<Rightarrow> pyexc + string" where
  "asStr (JStr t) = Inr t"
| "asStr _ = Inl TypeError"

definition inCInt :: "int \<Rightarrow> bool" where
  "inCInt n \<longleftrightarrow> - (2 ^ 31) \<le> n \<and> n < 2 ^ 31"

fun asInt :: "(int \<Rightarrow> pyexc + int) \<Rightarrow> json \<Rightarrow> pyexc + int" where
  "asInt overflow (JInt n) = (if inCInt n then Inr n else overflow n)"
| "asInt overflow (JBool b) = Inr (if b then 1 else 0)"
| "asInt overflow _ = Inl TypeError"

text \<open>\<^verbatim>\<open>str(n)\<close> for an integer.\<close>

fun str_nat :: "nat \<Rightarrow> string" where
  "str_nat n = (if n < 10 then [char_of (48 + n)]
                else str_nat (n div 10) @ [char_of (48 + n mod 10)])"

declare str_nat.simps [simp del]

definition str_int :: "int \<Rightarrow> string" where
  "str_int i = (if i < 0 then CHR ''-'' # str_nat (nat (- i)) else str_nat (nat i))"

subsection \<open>The wire protocol\<close>

text \<open>
  Modelled from the spec: the constants of \<^verbatim>\<open>debugger.client.protocol_cdm_dbg\<close> and
  the functions \<^verbatim>\<open>parseJSONMessage\<close> and \<^verbatim>\<open>sendJSONCommand\<close> of
  \<^verbatim>\<open>debugger.client.cdm_dbg_utils\<close> are not part of the sources at hand. A method is one
  of the seven names the module imports or any other value; a received line is given by
  what decoding it yields: \<^verbatim>\<open>bytes(qs).decode()\<close> fails (\<open>NotUtf8\<close>), \<^verbatim>\<open>parseJSONMessage\<close>
  raises (\<open>Unparsable\<close>), or it returns method, correlation id and params.
\<close>

datatype wire_method =
    METHOD_PROC_ID_INFO | METHOD_PROLOGUE_CONTINUE | METHOD_EPILOGUE_EXIT_CODE
  | METHOD_EPILOGUE_EXIT | METHOD_STDOUT | METHOD_STDERR | METHOD_STDIN
  | METHOD_OTHER string

datatype line = NotUtf8 | Unparsable pyexc | Message wire_method procuuid json

text \<open>
  A connected \<^verbatim>\<open>QTcpSocket\<close>: the complete lines received and not yet read, whether
  its \<^verbatim>\<open>readyRead\<close> and \<^verbatim>\<open>disconnected\<close> signals are connected to the wrapper's slots,
  whether \<^verbatim>\<open>close()\<close> was called, and the commands written to it.
\<close>

record socket =
  buffered :: "line list"
  slots :: bool
  sockClosed :: bool
  sent :: "(wire_method \<times> procuuid \<times> json) list"

subsection \<open>The child process\<close>

text \<open>
  A \<^verbatim>\<open>Popen\<close> handle as the module observes it: \<^verbatim>\<open>poll()\<close> returns \<^verbatim>\<open>None\<close> for a live
  process and its status for one that has exited; \<open>Broken\<close> is a handle on which every
  call raises.
\<close>

datatype popen = Alive | Exited | Broken

text \<open>\<^verbatim>\<open>poll() is not None\<close>.\<close>

fun pollIsNotNone :: "popen \<Rightarrow> pyexc + bool" where
  "pollIsNotNone Alive = Inr False"
| "pollIsNotNone Exited = Inr True"
| "pollIsNotNone Broken = Inl OSError"

text \<open>\<^verbatim>\<open>wait()\<close> returns once the process has exited.\<close>

fun procWait :: "popen \<Rightarrow> pyexc + popen" where
  "procWait Alive = Inr Exited"
| "procWait Exited = Inr Exited"
| "procWait Broken = Inl OSError"

fun procKill :: "popen \<Rightarrow> pyexc + popen" where
  "procKill Alive = Inr Exited"
| "procKill Exited = Inr Exited"
| "procKill Broken = Inl OSError"

subsection \<open>RemoteProcessWrapper: the object and its private methods\<close>

text \<open>
  The fields of the class, and two more that hold what the object is connected to:
  \<open>ioSlots\<close> is the console widget that \<^verbatim>\<open>run\<close> connects to \<^verbatim>\<open>sigClientStdout\<close>,
  \<^verbatim>\<open>sigClientStderr\<close> and \<^verbatim>\<open>sigClientInput\<close>; \<open>scans\<close> is what the coming scans of
  \<^verbatim>\<open>/proc\<close> by \<^verbatim>\<open>__getChildPID\<close> will find (the operating system's answers, in order;
  once they are used up no matching process is found). \<^verbatim>\<open>sigFinished\<close> of every wrapper
  is connected to \<^verbatim>\<open>RunManager.__onProcessFinished\<close> by \<^verbatim>\<open>run\<close> before the wrapper is
  registered, so it needs no field.
\<close>

record wrapper =
  procuuid :: procuuid
  path :: string
  redirected :: bool
  state :: "wrapper_state option"
  serverPort :: "nat option"
  clientSocket :: "socket option"
  proc :: "popen option"
  ioSlots :: "nat option"
  scans :: "nat option list"

definition RemoteProcessWrapper :: "procuuid \<Rightarrow> string \<Rightarrow> nat option \<Rightarrow> bool \<Rightarrow> wrapper" where
  "RemoteProcessWrapper u p port redir =
     \<lparr>procuuid = u, path = p, redirected = redir, state = None, serverPort = port,
      clientSocket = None, proc = None, ioSlots = None, scans = []\<rparr>"

definition connectSocket :: "wrapper \<Rightarrow> wrapper" where
  "connectSocket w =
     (case clientSocket w of
        None \<Rightarrow> w
      | Some sock \<Rightarrow> w\<lparr>clientSocket := Some (sock\<lparr>slots := True\<rparr>)\<rparr>)"

definition disconnectSocket :: "wrapper \<Rightarrow> wrapper" where
  "disconnectSocket w =
     (case clientSocket w of
        None \<Rightarrow> w
      | Some sock \<Rightarrow> w\<lparr>clientSocket := Some (sock\<lparr>slots := False\<rparr>)\<rparr>)"

definition closeSocket :: "wrapper \<Rightarrow> wrapper" where
  "closeSocket w =
     (case clientSocket w of
        None \<Rightarrow> w
      | Some sock \<Rightarrow> w\<lparr>clientSocket := None\<rparr>)"

text \<open>\<^verbatim>\<open>wait\<close>: the exception of \<^verbatim>\<open>self.__proc.wait()\<close> is swallowed.\<close>

definition wait :: "wrapper \<Rightarrow> wrapper" where
  "wait w =
     closeSocket
       (case proc w of
          None \<Rightarrow> w
        | Some p \<Rightarrow> (case procWait p of Inl e \<Rightarrow> w | Inr p' \<Rightarrow> w\<lparr>proc := Some p'\<rparr>))"

text \<open>\<^verbatim>\<open>__getChildPID\<close>: the next answer of the process table.\<close>

definition getChildPID :: "wrapper \<Rightarrow> nat option \<times> wrapper" where
  "getChildPID w =
     (if serverPort w = None then (None, w)
      else (case scans w of
              [] \<Rightarrow> (None, w)
            | r # rs \<Rightarrow> (r, w\<lparr>scans := rs\<rparr>)))"

text \<open>
  The loop of \<^verbatim>\<open>__kill\<close> over the child PIDs; \<^verbatim>\<open>killProcess(childPID)\<close> acts on the
  operating system only and its exception is swallowed.
\<close>

function killChildren :: "nat \<Rightarrow> wrapper \<Rightarrow> wrapper" where
  "killChildren childPID w =
     (case getChildPID w of
        (None, w') \<Rightarrow> w'
      | (Some nextPID, w') \<Rightarrow> if nextPID = childPID then w' else killChildren nextPID w')"
  by pat_completeness auto
termination
  by (relation "measure (\<lambda>(childPID, w). length (scans w))")
     (auto simp: getChildPID_def split: if_splits list.splits)

declare killChildren.simps [simp del]

definition kill :: "wrapper \<Rightarrow> wrapper" where
  "kill w =
     (let w1 = (case proc w of
                  None \<Rightarrow> w
                | Some p \<Rightarrow> (case procKill p of Inl e \<Rightarrow> w | Inr p' \<Rightarrow> w\<lparr>proc := Some p'\<rparr>));
          (childPID, w2) = getChildPID w1;
          w3 = (case childPID of None \<Rightarrow> w2 | Some pid \<Rightarrow> killChildren pid w2)
      in (wait w3)\<lparr>proc := None\<rparr>)"

text \<open>
  \<^verbatim>\<open>waitDetached\<close>: the bare \<^verbatim>\<open>except\<close> turns every exception into \<^verbatim>\<open>True\<close>, also the
  \<^verbatim>\<open>AttributeError\<close> of \<^verbatim>\<open>None.poll()\<close>.
\<close>

definition waitDetached :: "wrapper \<Rightarrow> bool" where
  "waitDetached w =
     (case proc w of
        None \<Rightarrow> True
      | Some p \<Rightarrow>
          (case pollIsNotNone p of
             Inl e \<Rightarrow> True
           | Inr exited \<Rightarrow>
               if exited then (case procWait p of Inl e \<Rightarrow> True | Inr p' \<Rightarrow> True)
               else False))"

subsection \<open>Console widgets and the main window\<close>

text \<open>
  Modelled from the spec: \<^verbatim>\<open>IOConsoleWidget\<close> and the main window are not part of the
  sources at hand. A console has the correlation id and kind it was created with and
  the messages appended to it; the main window keeps the list of consoles
  (\<^verbatim>\<open>addIOConsole\<close> appends to it, \<^verbatim>\<open>getIOConsoles\<close> returns it), and a widget is
  referred to by its position in that list.
\<close>

datatype console_msg =
    IDEMessage string | StdoutMessage string | StderrMessage string
  | InputRequest string int | ScriptFinished

record console =
  cprocuuid :: procuuid
  ckind :: run_kind
  content :: "console_msg list"

definition IOConsoleWidget :: "procuuid \<Rightarrow> run_kind \<Rightarrow> console" where
  "IOConsoleWidget u k = \<lparr>cprocuuid = u, ckind = k, content = []\<rparr>"

definition appendMsg :: "console_msg \<Rightarrow> console \<Rightarrow> console" where
  "appendMsg m c = c\<lparr>content := content c @ [m]\<rparr>"

definition clear :: "console \<Rightarrow> console" where
  "clear c = c\<lparr>content := []\<rparr>"

subsection \<open>The state of the run manager\<close>

datatype signal =
    SigFinished procuuid int
  | SigClientStdout string
  | SigClientStderr string
  | SigClientInput string int

text \<open>\<^verbatim>\<open>class RemoteProcess\<close>; \<open>procWrapper\<close> is the address of the wrapper object.\<close>

record remote_process =
  procWrapper :: nat
  widget :: "nat option"
  kind :: run_kind

text \<open>
  \<open>wrappers\<close> is the store of wrapper objects and \<open>nextWrapper\<close> the address the next
  object created will get, \<open>processes\<close> and \<open>prologueProcesses\<close> are the two lists of
  the manager, \<open>waitTimer\<close> and \<open>prologueTimer\<close> say whether the
  single-shot timer is active, \<open>ioConsoles\<close>, \<open>statusBar\<close> and \<open>tooltips\<close> belong to the
  main window, \<open>errorLog\<close> collects \<^verbatim>\<open>logging.error\<close>, and \<open>emitted\<close> records every
  signal a wrapper has emitted, in order. \<open>intOverflow\<close> is what the Qt binding of the
  process does with an integer outside the range of a C++ int.
\<close>

record sys =
  wrappers :: "nat \<Rightarrow> wrapper"
  nextWrapper :: nat
  processes :: "remote_process list"
  prologueProcesses :: "(procuuid \<times> real) list"
  waitTimer :: bool
  prologueTimer :: bool
  ioConsoles :: "console list"
  statusBar :: "string list"
  tooltips :: "(procuuid \<times> string) list"
  errorLog :: "string list"
  emitted :: "signal list"
  intOverflow :: "int \<Rightarrow> pyexc + int"

definition updWrapper :: "nat \<Rightarrow> (wrapper \<Rightarrow> wrapper) \<Rightarrow> sys \<Rightarrow> sys" where
  "updWrapper a f s = s\<lparr>wrappers := (wrappers s)(a := f (wrappers s a))\<rparr>"

definition updConsole :: "nat \<Rightarrow> (console \<Rightarrow> console) \<Rightarrow> sys \<Rightarrow> sys" where
  "updConsole wd f s = s\<lparr>ioConsoles := (ioConsoles s)[wd := f (ioConsoles s ! wd)]\<rparr>"

text \<open>\<^verbatim>\<open>del xs[i]\<close> for an index in range.\<close>

definition delIndex :: "nat \<Rightarrow> 'a list \<Rightarrow> 'a list" where
  "delIndex i xs = take i xs @ drop (Suc i) xs"

text \<open>The first index whose element satisfies the test (\<^verbatim>\<open>for index, item in enumerate\<close>).\<close>

fun findIndex :: "('a \<Rightarrow> bool) \<Rightarrow> 'a list \<Rightarrow> nat option" where
  "findIndex P [] = None"
| "findIndex P (x # xs) = (if P x then Some 0 else map_option Suc (findIndex P xs))"

definition itemUuid :: "sys \<Rightarrow> remote_process \<Rightarrow> procuuid" where
  "itemUuid s item = procuuid (wrappers s (procWrapper item))"

definition itemRedirected :: "sys \<Rightarrow> remote_process \<Rightarrow> bool" where
  "itemRedirected s item = redirected (wrappers s (procWrapper item))"

definition getProcessIndex :: "sys \<Rightarrow> procuuid \<Rightarrow> nat option" where
  "getProcessIndex s u = findIndex (\<lambda>item. itemUuid s item = u) (processes s)"

subsection \<open>Finish handling\<close>

text \<open>
  The branch of \<^verbatim>\<open>__onProcessFinished\<close> for a redirected entry with a widget.
  \<^verbatim>\<open>onConsoleFinished\<close> of the main window has no effect on the state kept here.
\<close>

definition finishConsole :: "nat \<Rightarrow> nat \<Rightarrow> procuuid \<Rightarrow> int \<Rightarrow> sys \<Rightarrow> sys" where
  "finishConsole a wd u retCode s =
     (let s1 = updConsole wd (appendMsg ScriptFinished) s;
          (msg, tooltip, s2) =
            (if retCode = KILLED then (''Script killed'', ''killed'', s1)
             else if retCode = DISCONNECTED then
               (''Connection lost to the script process'', ''connection lost'', s1)
             else (''Script finished with exit code '' @ str_int retCode,
                   ''finished, exit code '' @ str_int retCode,
                   updWrapper a wait s1));
          s3 = updConsole wd (appendMsg (IDEMessage msg)) s2
      in s3\<lparr>tooltips := tooltips s3 @ [(u, tooltip)]\<rparr>)"

definition onProcessFinished :: "procuuid \<Rightarrow> int \<Rightarrow> sys \<Rightarrow> sys" where
  "onProcessFinished u retCode s =
     (case getProcessIndex s u of
        None \<Rightarrow> s
      | Some index \<Rightarrow>
          (let item = processes s ! index;
               s1 = (if itemRedirected s item then
                       (case widget item of
                          None \<Rightarrow> s
                        | Some wd \<Rightarrow> finishConsole (procWrapper item) wd u retCode s)
                     else s)
           in s1\<lparr>processes := delIndex index (processes s1)\<rparr>))"

subsection \<open>Signals\<close>

text \<open>\<^verbatim>\<open>self.sigFinished.emit(self.procuuid, code)\<close> by the wrapper at address \<open>a\<close>.\<close>

definition emitFinished :: "nat \<Rightarrow> int \<Rightarrow> sys \<Rightarrow> sys" where
  "emitFinished a code s =
     (let u = procuuid (wrappers s a)
      in onProcessFinished u code (s\<lparr>emitted := emitted s @ [SigFinished u code]\<rparr>))"

definition emitToConsole :: "nat \<Rightarrow> signal \<Rightarrow> console_msg \<Rightarrow> sys \<Rightarrow> sys" where
  "emitToConsole a sg m s =
     (let s1 = s\<lparr>emitted := emitted s @ [sg]\<rparr>
      in case ioSlots (wrappers s a) of
           None \<Rightarrow> s1
         | Some wd \<Rightarrow> updConsole wd (appendMsg m) s1)"

subsection \<open>RemoteProcessWrapper: the public methods and the slots\<close>

definition stop :: "nat \<Rightarrow> sys \<Rightarrow> sys" where
  "stop a s = emitFinished a KILLED (updWrapper a kill (updWrapper a disconnectSocket s))"

definition disconnected :: "nat \<Rightarrow> sys \<Rightarrow> sys" where
  "disconnected a s = emitFinished a DISCONNECTED (updWrapper a kill s)"

text \<open>
  Modelled from the spec: \<^verbatim>\<open>sendJSONCommand(socket, method, procuuid, params)\<close> encodes
  the command and writes it to the socket; with \<^verbatim>\<open>None\<close> for a socket the write is an
  \<^verbatim>\<open>AttributeError\<close>.
\<close>

definition sendJSONCommand ::
  "socket option \<Rightarrow> wire_method \<Rightarrow> procuuid \<Rightarrow> json \<Rightarrow> pyexc + socket" where
  "sendJSONCommand so m u params =
     (case so of
        None \<Rightarrow> Inl AttributeError
      | Some sock \<Rightarrow> Inr (sock\<lparr>sent := sent sock @ [(m, u, params)]\<rparr>))"

definition sendStart :: "nat \<Rightarrow> sys \<Rightarrow> (pyexc \<times> sys) + sys" where
  "sendStart a s =
     (let w = wrappers s a
      in case sendJSONCommand (clientSocket w) METHOD_PROLOGUE_CONTINUE (procuuid w) JNull of
           Inl e \<Rightarrow> Inl (e, s)
         | Inr sock' \<Rightarrow> Inr (updWrapper a (\<lambda>w. w\<lparr>clientSocket := Some sock'\<rparr>) s))"

definition sendExit :: "nat \<Rightarrow> sys \<Rightarrow> (pyexc \<times> sys) + sys" where
  "sendExit a s =
     (let s1 = updWrapper a disconnectSocket s;
          w = wrappers s1 a
      in case sendJSONCommand (clientSocket w) METHOD_EPILOGUE_EXIT (procuuid w) JNull of
           Inl e \<Rightarrow> Inl (e, s1)
         | Inr sock' \<Rightarrow> Inr (updWrapper a (\<lambda>w. w\<lparr>clientSocket := Some sock'\<rparr>) s1))"

text \<open>
  The body of the \<^verbatim>\<open>try\<close> of \<^verbatim>\<open>__parseClientLine\<close> for a decoded message.
  \<^verbatim>\<open>QApplication.processEvents()\<close> after each \<^verbatim>\<open>emit\<close> dispatches the events that are
  pending at that moment; the embedding delivers one event at a time, so none is.
\<close>

definition handleMessage :: "nat \<Rightarrow> wire_method \<Rightarrow> json \<Rightarrow> sys \<Rightarrow> (pyexc \<times> sys) + sys" where
  "handleMessage a m params s =
     (if m = METHOD_EPILOGUE_EXIT_CODE then
        (case sendExit a s of
           Inl es \<Rightarrow> Inl es
         | Inr s1 \<Rightarrow>
             (case subscript params ''exitCode'' of
                Inl e \<Rightarrow> Inl (e, s1)
              | Inr v \<Rightarrow>
                  (case asInt (intOverflow s1) v of
                     Inl e \<Rightarrow> Inl (e, s1)
                   | Inr code \<Rightarrow> Inr (emitFinished a code s1))))
      else if m = METHOD_STDOUT then
        (case subscript params ''text'' of
           Inl e \<Rightarrow> Inl (e, s)
         | Inr v \<Rightarrow>
             (case asStr v of
                Inl e \<Rightarrow> Inl (e, s)
              | Inr t \<Rightarrow> Inr (emitToConsole a (SigClientStdout t) (StdoutMessage t) s)))
      else if m = METHOD_STDERR then
        (case subscript params ''text'' of
           Inl e \<Rightarrow> Inl (e, s)
         | Inr v \<Rightarrow>
             (case asStr v of
                Inl e \<Rightarrow> Inl (e, s)
              | Inr t \<Rightarrow> Inr (emitToConsole a (SigClientStderr t) (StderrMessage t) s)))
      else if m = METHOD_STDIN then
        (case subscript params ''prompt'' of
           Inl e \<Rightarrow> Inl (e, s)
         | Inr pv \<Rightarrow>
             (case subscript params ''echo'' of
                Inl e \<Rightarrow> Inl (e, s)
              | Inr ev \<Rightarrow>
                  (case asStr pv of
                     Inl e \<Rightarrow> Inl (e, s)
                   | Inr prompt \<Rightarrow>
                       (case asInt (intOverflow s) ev of
                          Inl e \<Rightarrow> Inl (e, s)
                        | Inr echo \<Rightarrow>
                            Inr (emitToConsole a (SigClientInput prompt echo)
                                   (InputRequest prompt echo) s)))))
      else Inr s)"

definition logParseFailure :: "sys \<Rightarrow> sys" where
  "logParseFailure s = s\<lparr>errorLog := errorLog s @ [''Failure to parse a client message'']\<rparr>"

text \<open>
  One line of \<^verbatim>\<open>__parseClientLine\<close>, after \<^verbatim>\<open>readLine()\<close>: the decoding to a string is
  outside the \<^verbatim>\<open>try\<close>; the \<^verbatim>\<open>except\<close> clause catches \<^verbatim>\<open>TypeError\<close> and \<^verbatim>\<open>ValueError\<close>
  only.
\<close>

definition tryMessage :: "nat \<Rightarrow> line \<Rightarrow> sys \<Rightarrow> (pyexc \<times> sys) + sys" where
  "tryMessage a received s =
     (case received of
        NotUtf8 \<Rightarrow> Inl (UnicodeDecodeError, s)
      | Unparsable e \<Rightarrow> if isTypeOrValueError e then Inr (logParseFailure s) else Inl (e, s)
      | Message m u params \<Rightarrow>
          (case handleMessage a m params s of
             Inl (e, s1) \<Rightarrow> if isTypeOrValueError e then Inr (logParseFailure s1) else Inl (e, s1)
           | Inr s1 \<Rightarrow> Inr s1))"

definition wbuf :: "wrapper \<Rightarrow> nat" where
  "wbuf w = (case clientSocket w of None \<Rightarrow> 0 | Some sock \<Rightarrow> length (buffered sock))"

definition readLine :: "wrapper \<Rightarrow> wrapper" where
  "readLine w =
     (case clientSocket w of
        None \<Rightarrow> w
      | Some sock \<Rightarrow> w\<lparr>clientSocket := Some (sock\<lparr>buffered := tl (buffered sock)\<rparr>)\<rparr>)"

text \<open>
  \<^verbatim>\<open>__parseClientLine\<close>: \<^verbatim>\<open>while self.__clientSocket and self.__clientSocket.canReadLine()\<close>.
\<close>

function parseClientLine :: "nat \<Rightarrow> sys \<Rightarrow> (pyexc \<times> sys) + sys" where
  "parseClientLine a s =
     (case clientSocket (wrappers s a) of
        None \<Rightarrow> Inr s
      | Some sock \<Rightarrow>
          (case buffered sock of
             [] \<Rightarrow> Inr s
           | received # rest \<Rightarrow>
               (case tryMessage a received (updWrapper a readLine s) of
                  Inl es \<Rightarrow> Inl es
                | Inr s1 \<Rightarrow> parseClientLine a s1)))"
  by pat_completeness auto

text \<open>
  The loop stops: a line is taken from the buffer in every round, and nothing that a
  round calls puts a line back.
\<close>

lemma wbuf_disconnectSocket [simp]: "wbuf (disconnectSocket w) = wbuf w"
  by (simp add: wbuf_def disconnectSocket_def split: option.splits)

lemma wbuf_closeSocket [simp]: "wbuf (closeSocket w) = 0"
  by (simp add: wbuf_def closeSocket_def split: option.splits)

lemma wbuf_wait [simp]: "wbuf (wait w) = 0"
  by (simp add: wait_def)

lemma wrappers_updConsole [simp]: "wrappers (updConsole wd f s) = wrappers s"
  by (simp add: updConsole_def)

lemma wrappers_updWrapper: "wrappers (updWrapper b f s) a = (if a = b then f (wrappers s a) else wrappers s a)"
  by (simp add: updWrapper_def)

lemma wbuf_finishConsole: "wbuf (wrappers (finishConsole b wd u c s) a) \<le> wbuf (wrappers s a)"
  by (simp add: finishConsole_def Let_def wrappers_updWrapper)

lemma wbuf_onProcessFinished: "wbuf (wrappers (onProcessFinished u c s) a) \<le> wbuf (wrappers s a)"
  by (simp add: onProcessFinished_def Let_def wbuf_finishConsole split: option.splits)

lemma wbuf_emitFinished: "wbuf (wrappers (emitFinished b c s) a) \<le> wbuf (wrappers s a)"
  unfolding emitFinished_def Let_def
  by (rule order_trans [OF wbuf_onProcessFinished]) simp

lemma wbuf_emitToConsole [simp]: "wrappers (emitToConsole b sg m s) = wrappers s"
  by (simp add: emitToConsole_def Let_def split: option.splits)

lemma wbuf_sendExit:
  "sendExit b s = Inr s1 \<Longrightarrow> wbuf (wrappers s1 a) = wbuf (wrappers s a)"
  "sendExit b s = Inl (e, s1) \<Longrightarrow> wbuf (wrappers s1 a) = wbuf (wrappers s a)"
  by (auto simp: sendExit_def Let_def sendJSONCommand_def wrappers_updWrapper wbuf_def disconnectSocket_def
      split: option.splits sum.splits if_splits)

lemma wbuf_handleMessage:
  "handleMessage b m p s = Inr s1 \<Longrightarrow> wbuf (wrappers s1 a) \<le> wbuf (wrappers s a)"
  "handleMessage b m p s = Inl (e, s1) \<Longrightarrow> wbuf (wrappers s1 a) \<le> wbuf (wrappers s a)"
  by (auto simp: handleMessage_def wbuf_sendExit split: if_splits sum.splits
      intro: order_trans [OF wbuf_emitFinished])

lemma wbuf_tryMessage:
  "tryMessage b l s = Inr s1 \<Longrightarrow> wbuf (wrappers s1 a) \<le> wbuf (wrappers s a)"
  by (auto simp: tryMessage_def logParseFailure_def split: line.splits if_splits sum.splits prod.splits
      dest: wbuf_handleMessage)

termination parseClientLine
proof (relation "measure (\<lambda>(a, s). wbuf (wrappers s a))", goal_cases)
  case 1
  show ?case by simp
next
  case (2 a s sock received rest s1)
  from 2(3) have "wbuf (wrappers s1 a) \<le> wbuf (wrappers (updWrapper a readLine s) a)"
    by (rule wbuf_tryMessage)
  also from 2(1,2) have "\<dots> < wbuf (wrappers s a)"
    by (simp add: wrappers_updWrapper readLine_def wbuf_def)
  finally show ?case by simp
qed

declare parseClientLine.simps [simp del]

text \<open>\<^verbatim>\<open>setSocket\<close>: no test of the state or of an earlier socket precedes the assignments.\<close>

definition setSocket :: "nat \<Rightarrow> socket \<Rightarrow> sys \<Rightarrow> (pyexc \<times> sys) + sys" where
  "setSocket a clientSock s =
     (let s1 = updWrapper a
                 (\<lambda>w. connectSocket (w\<lparr>clientSocket := Some clientSock, state := Some STATE_RUNNING\<rparr>)) s
      in case parseClientLine a s1 of
           Inl es \<Rightarrow> Inl es
         | Inr s2 \<Rightarrow> sendStart a s2)"

text \<open>\<^verbatim>\<open>start\<close>: \<open>failure\<close> is \<^verbatim>\<open>str(exc)\<close> of the exception that the command builder or
  \<^verbatim>\<open>Popen\<close> raises, if one does.\<close>

definition start :: "nat \<Rightarrow> string option \<Rightarrow> sys \<Rightarrow> string + sys" where
  "start a failure s =
     (case failure of
        Some msg \<Rightarrow> Inl msg
      | None \<Rightarrow> Inr (updWrapper a (\<lambda>w. w\<lparr>proc := Some Alive\<rparr>) s))"

subsection \<open>RunManager\<close>

definition safeSocketClose :: "socket \<Rightarrow> socket" where
  "safeSocketClose sock = sock\<lparr>sockClosed := True\<rparr>"

definition onProcessStarted :: "procuuid \<Rightarrow> sys \<Rightarrow> sys" where
  "onProcessStarted u s =
     (case getProcessIndex s u of
        None \<Rightarrow> s
      | Some index \<Rightarrow>
          (case widget (processes s ! index) of
             None \<Rightarrow> s
           | Some wd \<Rightarrow> updConsole wd (appendMsg (IDEMessage ''Started'')) s))"

text \<open>
  \<^verbatim>\<open>__waitForHandshake\<close> for a new connection. \<^verbatim>\<open>waitForReadyRead(1000)\<close> is true when a
  line has arrived within the second. The result holds the returned value, the socket
  if no wrapper has taken it, and the state.
\<close>

definition waitForHandshake ::
  "socket \<Rightarrow> sys \<Rightarrow> (pyexc \<times> socket option \<times> sys) + (json option \<times> socket option \<times> sys)" where
  "waitForHandshake clientSock s =
     (case buffered clientSock of
        [] \<Rightarrow> Inr (None, Some clientSock, s)
      | received # rest \<Rightarrow>
          (let sock1 = clientSock\<lparr>buffered := rest\<rparr>
           in case received of
                NotUtf8 \<Rightarrow> Inl (UnicodeDecodeError, Some sock1, s)
              | Unparsable e \<Rightarrow>
                  if isTypeOrValueError e then
                    Inr (None, Some (safeSocketClose sock1),
                         s\<lparr>statusBar := statusBar s @
                            [''Unsolicited connection to the RunManager. Ignoring...'']\<rparr>)
                  else Inl (e, Some sock1, s)
              | Message m u params \<Rightarrow>
                  if m \<noteq> METHOD_PROC_ID_INFO then
                    Inr (None, Some (safeSocketClose sock1),
                         s\<lparr>errorLog := errorLog s @
                            [''Unexpected message at the handshake stage.'']\<rparr>)
                  else
                    (case getProcessIndex s u of
                       None \<Rightarrow> Inr (Some params, Some sock1, s)
                     | Some procIndex \<Rightarrow>
                         (let s1 = onProcessStarted u s
                          in case setSocket (procWrapper (processes s1 ! procIndex)) sock1 s1 of
                               Inl (e, s2) \<Rightarrow> Inl (e, None, s2)
                             | Inr s2 \<Rightarrow> Inr (Some params, None, s2)))))"

text \<open>
  \<^verbatim>\<open>__pickWidget\<close>; \<open>consoleReuse\<close> is \<^verbatim>\<open>Settings()['ioconsolereuse']\<close>. A console
  that is reused keeps the correlation id it was created with: the method does not
  assign it, and \<^verbatim>\<open>onReuseConsole(widget, kind)\<close> is not given the new id.
\<close>

definition addIOConsole :: "console \<Rightarrow> sys \<Rightarrow> sys" where
  "addIOConsole c s = s\<lparr>ioConsoles := ioConsoles s @ [c]\<rparr>"

definition pickWidget :: "procuuid \<Rightarrow> run_kind \<Rightarrow> reuse_mode \<Rightarrow> sys \<Rightarrow> nat \<times> sys" where
  "pickWidget u k consoleReuse s =
     (if consoleReuse = NO_REUSE then
        (length (ioConsoles s), addIOConsole (IOConsoleWidget u k) s)
      else
        (case findIndex (\<lambda>c. ckind c = k \<and> getProcessIndex s (cprocuuid c) = None)
                (ioConsoles s) of
           Some i \<Rightarrow> (i, if consoleReuse = CLEAR_AND_REUSE then updConsole i clear s else s)
         | None \<Rightarrow> (length (ioConsoles s), addIOConsole (IOConsoleWidget u k) s)))"

text \<open>What \<^verbatim>\<open>run\<close> reads from its surroundings.\<close>

record launch_env =
  dlgAccepted :: bool
  paramRedirected :: bool
  newUuid :: procuuid
  tcpPort :: nat
  timeNow :: real
  consoleReuse :: reuse_mode
  spawnError :: "string option"
  procScans :: "nat option list"

definition run :: "string \<Rightarrow> bool \<Rightarrow> launch_env \<Rightarrow> sys \<Rightarrow> sys" where
  "run p needDialog env s =
     (if needDialog \<and> \<not> dlgAccepted env then s
      else
        (let redir = paramRedirected env;
             a = nextWrapper s;
             s1 = s\<lparr>wrappers := (wrappers s)
                       (a := (RemoteProcessWrapper (newUuid env) p (Some (tcpPort env)) redir)
                               \<lparr>scans := procScans env\<rparr>),
                     nextWrapper := Suc a\<rparr>;
             (wd, s2) =
               (if redir then
                  (let s1a = updWrapper a (\<lambda>w. w\<lparr>state := Some STATE_PROLOGUE\<rparr>) s1;
                       s1b = s1a\<lparr>prologueProcesses :=
                                    prologueProcesses s1a @ [(newUuid env, timeNow env)]\<rparr>;
                       s1c = (if \<not> prologueTimer s1b then s1b\<lparr>prologueTimer := True\<rparr> else s1b);
                       (i, s1d) = pickWidget (newUuid env) RUN (consoleReuse env) s1c;
                       s1e = updConsole i (appendMsg (IDEMessage (''Starting '' @ p @ ''...''))) s1d
                   in (Some i, updWrapper a (\<lambda>w. w\<lparr>ioSlots := Some i\<rparr>) s1e))
                else (None, s1));
             s3 = s2\<lparr>processes := processes s2 @ [\<lparr>procWrapper = a, widget = wd, kind = RUN\<rparr>]\<rparr>
         in case start a (spawnError env) s3 of
              Inr s4 \<Rightarrow>
                if \<not> redir then (if \<not> waitTimer s4 then s4\<lparr>waitTimer := True\<rparr> else s4)
                else s4
            | Inl msg \<Rightarrow>
                (let s4 = (if redir then
                             (case wd of
                                None \<Rightarrow> s3
                              | Some i \<Rightarrow>
                                  updConsole i (appendMsg (IDEMessage (''Failed to start: '' @ msg))) s3)
                           else s3\<lparr>errorLog := errorLog s3 @ [msg]\<rparr>)
                 in s4\<lparr>processes := butlast (processes s4)\<rparr>)))"

definition kill_uuid :: "procuuid \<Rightarrow> sys \<Rightarrow> sys" where
  "kill_uuid u s =
     (case getProcessIndex s u of
        None \<Rightarrow> s
      | Some index \<Rightarrow>
          (let item = processes s ! index
           in if \<not> itemRedirected s item then s else stop (procWrapper item) s))"

text \<open>
  The loops that run \<^verbatim>\<open>index\<close> from \<^verbatim>\<open>len(...) - 1\<close> down to 0 are recursions on
  \<^verbatim>\<open>index + 1\<close>; reading a list at an index beyond its end is an \<^verbatim>\<open>IndexError\<close>.
\<close>

fun countRedirected :: "nat \<Rightarrow> sys \<Rightarrow> nat \<Rightarrow> nat" where
  "countRedirected 0 s count = count"
| "countRedirected (Suc index) s count =
     countRedirected index s
       (if itemRedirected s (processes s ! index) then count + 1 else count)"

definition getDetachedCount :: "sys \<Rightarrow> nat" where
  "getDetachedCount s = countRedirected (length (processes s)) s 0"

fun killAllLoop :: "nat \<Rightarrow> sys \<Rightarrow> (pyexc \<times> sys) + sys" where
  "killAllLoop 0 s = Inr s"
| "killAllLoop (Suc index) s =
     (if index < length (processes s) then
        (let item = processes s ! index
         in killAllLoop index (if itemRedirected s item then stop (procWrapper item) s else s))
      else Inl (IndexError, s))"

text \<open>
  The second loop of \<^verbatim>\<open>killAll\<close> sleeps and lets the event loop run until no
  redirected entry is left; \<open>processEvents\<close> is whatever the pending events do to the
  state. The loop may not come back, so its result is an option.
\<close>

partial_function (option) drainLoop :: "(sys \<Rightarrow> sys) \<Rightarrow> sys \<Rightarrow> sys option" where
  "drainLoop processEvents s =
     (if getDetachedCount s > 0 then drainLoop processEvents (processEvents s) else Some s)"

definition killAll :: "(sys \<Rightarrow> sys) \<Rightarrow> sys \<Rightarrow> ((pyexc \<times> sys) + sys) option" where
  "killAll processEvents s =
     (case killAllLoop (length (processes s)) s of
        Inl es \<Rightarrow> Some (Inl es)
      | Inr s1 \<Rightarrow> map_option Inr (drainLoop processEvents s1))"

text \<open>
  \<^verbatim>\<open>__onWaitTimer\<close> and \<^verbatim>\<open>__onPrologueTimer\<close>: a single-shot timer is inactive when
  its slot runs, and active again if the slot starts it. The prologue loop reads the
  clock in every round: \<open>now index\<close> is the value of \<^verbatim>\<open>time.time()\<close> in the round for
  \<open>index\<close>.
\<close>

fun waitTimerLoop :: "nat \<Rightarrow> bool \<times> sys \<Rightarrow> (pyexc \<times> sys) + (bool \<times> sys)" where
  "waitTimerLoop 0 (needNewTimer, s) = Inr (needNewTimer, s)"
| "waitTimerLoop (Suc index) (needNewTimer, s) =
     (if index < length (processes s) then
        (let item = processes s ! index
         in if \<not> itemRedirected s item then
              (if waitDetached (wrappers s (procWrapper item)) then
                 waitTimerLoop index (needNewTimer, s\<lparr>processes := delIndex index (processes s)\<rparr>)
               else waitTimerLoop index (True, s))
            else waitTimerLoop index (needNewTimer, s))
      else Inl (IndexError, s))"

definition onWaitTimer :: "sys \<Rightarrow> (pyexc \<times> sys) + sys" where
  "onWaitTimer s =
     (case waitTimerLoop (length (processes s)) (False, s\<lparr>waitTimer := False\<rparr>) of
        Inl es \<Rightarrow> Inl es
      | Inr (needNewTimer, s1) \<Rightarrow> Inr (if needNewTimer then s1\<lparr>waitTimer := True\<rparr> else s1))"

definition timeoutMessage :: string where
  "timeoutMessage = ''Timeout: the process did not start; killing the process.''"

fun prologueLoop :: "(nat \<Rightarrow> real) \<Rightarrow> nat \<Rightarrow> bool \<times> sys \<Rightarrow> (pyexc \<times> sys) + (bool \<times> sys)" where
  "prologueLoop now 0 (needNewTimer, s) = Inr (needNewTimer, s)"
| "prologueLoop now (Suc index) (needNewTimer, s) =
     (if index < length (prologueProcesses s) then
        (let (u, startTime) = prologueProcesses s ! index
         in case getProcessIndex s u of
              None \<Rightarrow>
                prologueLoop now index
                  (needNewTimer, s\<lparr>prologueProcesses := delIndex index (prologueProcesses s)\<rparr>)
            | Some procIndex \<Rightarrow>
                (let item = processes s ! procIndex
                 in if state (wrappers s (procWrapper item)) \<noteq> Some STATE_PROLOGUE then
                      prologueLoop now index
                        (needNewTimer,
                         s\<lparr>prologueProcesses := delIndex index (prologueProcesses s)\<rparr>)
                    else if now index - startTime > HANDSHAKE_TIMEOUT then
                      (case widget item of
                         None \<Rightarrow> Inl (AttributeError, s)
                       | Some wd \<Rightarrow>
                           prologueLoop now index
                             (needNewTimer,
                              stop (procWrapper item)
                                (updConsole wd (appendMsg (IDEMessage timeoutMessage)) s)))
                    else prologueLoop now index (True, s)))
      else Inl (IndexError, s))"

definition onPrologueTimer :: "(nat \<Rightarrow> real) \<Rightarrow> sys \<Rightarrow> (pyexc \<times> sys) + sys" where
  "onPrologueTimer now s =
     (case prologueLoop now (length (prologueProcesses s)) (False, s\<lparr>prologueTimer := False\<rparr>) of
        Inl es \<Rightarrow> Inl es
      | Inr (needNewTimer, s1) \<Rightarrow> Inr (if needNewTimer then s1\<lparr>prologueTimer := True\<rparr> else s1))"

section \<open>What the methods leave unchanged\<close>

text \<open>
  The correlation id, the redirection flag, the state and the console connection of a
  wrapper are written by \<^verbatim>\<open>run\<close> and \<^verbatim>\<open>setSocket\<close> only.
\<close>

definition sameFixed :: "wrapper \<Rightarrow> wrapper \<Rightarrow> bool" where
  "sameFixed w w' \<longleftrightarrow>
     procuuid w' = procuuid w \<and> redirected w' = redirected w \<and> state w' = state w \<and>
     ioSlots w' = ioSlots w"

lemma sameFixed_refl [simp]: "sameFixed w w"
  by (simp add: sameFixed_def)

lemma sameFixed_trans: "sameFixed w w' \<Longrightarrow> sameFixed w' w'' \<Longrightarrow> sameFixed w w''"
  by (simp add: sameFixed_def)

lemma updWrapper_fields [simp]:
  "processes (updWrapper a f s) = processes s"
  "prologueProcesses (updWrapper a f s) = prologueProcesses s"
  "waitTimer (updWrapper a f s) = waitTimer s"
  "prologueTimer (updWrapper a f s) = prologueTimer s"
  "ioConsoles (updWrapper a f s) = ioConsoles s"
  "statusBar (updWrapper a f s) = statusBar s"
  "tooltips (updWrapper a f s) = tooltips s"
  "errorLog (updWrapper a f s) = errorLog s"
  "emitted (updWrapper a f s) = emitted s"
  "nextWrapper (updWrapper a f s) = nextWrapper s"
  by (simp_all add: updWrapper_def)

lemma updConsole_fields [simp]:
  "processes (updConsole wd g s) = processes s"
  "prologueProcesses (updConsole wd g s) = prologueProcesses s"
  "waitTimer (updConsole wd g s) = waitTimer s"
  "prologueTimer (updConsole wd g s) = prologueTimer s"
  "statusBar (updConsole wd g s) = statusBar s"
  "tooltips (updConsole wd g s) = tooltips s"
  "errorLog (updConsole wd g s) = errorLog s"
  "emitted (updConsole wd g s) = emitted s"
  "nextWrapper (updConsole wd g s) = nextWrapper s"
  by (simp_all add: updConsole_def)

lemma sameFixed_disconnectSocket [simp]: "sameFixed w (disconnectSocket w)"
  by (simp add: sameFixed_def disconnectSocket_def split: option.splits)

lemma sameFixed_connectSocket [simp]: "sameFixed w (connectSocket w)"
  by (simp add: sameFixed_def connectSocket_def split: option.splits)

lemma sameFixed_closeSocket [simp]: "sameFixed w (closeSocket w)"
  by (simp add: sameFixed_def closeSocket_def split: option.splits)

lemma sameFixed_readLine [simp]: "sameFixed w (readLine w)"
  by (simp add: sameFixed_def readLine_def split: option.splits)

lemma sameFixed_wait [simp]: "sameFixed w (wait w)"
  by (simp add: sameFixed_def wait_def closeSocket_def split: option.splits sum.splits)

lemma sameFixed_getChildPID: "getChildPID w = (r, w') \<Longrightarrow> sameFixed w w'"
  by (auto simp: sameFixed_def getChildPID_def split: if_splits list.splits)

lemma sameFixed_killChildren [simp]: "sameFixed w (killChildren pid w)"
proof (induction pid w rule: killChildren.induct)
  case (1 childPID w)
  obtain r w' where g: "getChildPID w = (r, w')"
    by (cases "getChildPID w")
  then have sw: "sameFixed w w'"
    by (rule sameFixed_getChildPID)
  show ?case
  proof (cases r)
    case None
    with g sw show ?thesis
      by (simp add: killChildren.simps [of childPID w])
  next
    case (Some nextPID)
    show ?thesis
    proof (cases "nextPID = childPID")
      case True
      with g sw Some show ?thesis
        by (simp add: killChildren.simps [of childPID w])
    next
      case False
      have "sameFixed w' (killChildren nextPID w')"
        using "1.IH" g Some False by auto
      with sw have "sameFixed w (killChildren nextPID w')"
        by (rule sameFixed_trans)
      with g Some False show ?thesis
        by (simp add: killChildren.simps [of childPID w])
    qed
  qed
qed

lemma sameFixed_kill [simp]: "sameFixed w (kill w)"
proof -
  define w1 where "w1 = (case proc w of None \<Rightarrow> w
       | Some p \<Rightarrow> (case procKill p of Inl e \<Rightarrow> w | Inr p' \<Rightarrow> w\<lparr>proc := Some p'\<rparr>))"
  have s1: "sameFixed w w1"
    by (simp add: w1_def sameFixed_def split: option.splits sum.splits)
  obtain r w2 where g: "getChildPID w1 = (r, w2)"
    by (cases "getChildPID w1")
  then have s2: "sameFixed w1 w2"
    by (rule sameFixed_getChildPID)
  define w3 where "w3 = (case r of None \<Rightarrow> w2 | Some pid \<Rightarrow> killChildren pid w2)"
  have s3: "sameFixed w2 w3"
    by (simp add: w3_def split: option.splits)
  have "sameFixed w3 ((wait w3)\<lparr>proc := None\<rparr>)"
    using sameFixed_wait [of w3] by (simp add: sameFixed_def)
  with s1 s2 s3 have "sameFixed w ((wait w3)\<lparr>proc := None\<rparr>)"
    by (blast intro: sameFixed_trans)
  moreover have "kill w = (wait w3)\<lparr>proc := None\<rparr>"
    using g by (simp add: kill_def Let_def w1_def w3_def)
  ultimately show ?thesis by simp
qed

text \<open>The manager's handlers and the wrapper's methods keep the fixed fields of every wrapper.\<close>

definition frame :: "sys \<Rightarrow> sys \<Rightarrow> bool" where
  "frame s s' \<longleftrightarrow> (\<forall>b. sameFixed (wrappers s b) (wrappers s' b))"

lemma frame_refl [simp]: "frame s s"
  by (simp add: frame_def)

lemma frame_trans: "frame s s' \<Longrightarrow> frame s' s'' \<Longrightarrow> frame s s''"
  by (auto simp: frame_def intro: sameFixed_trans)

lemma frame_updWrapper: "(\<And>w. sameFixed w (f w)) \<Longrightarrow> frame s (updWrapper a f s)"
  by (simp add: frame_def wrappers_updWrapper)

lemma frame_same_wrappers: "wrappers s' = wrappers s \<Longrightarrow> frame s s'"
  by (simp add: frame_def)

lemma frame_finishConsole: "frame s (finishConsole b wd u c s)"
  by (simp add: frame_def finishConsole_def Let_def wrappers_updWrapper)

lemma frame_onProcessFinished: "frame s (onProcessFinished u c s)"
  using frame_finishConsole
  by (simp add: onProcessFinished_def Let_def frame_def split: option.splits)

lemma frame_emitFinished: "frame s (emitFinished a c s)"
proof -
  have "frame s (s\<lparr>emitted := emitted s @ [SigFinished (procuuid (wrappers s a)) c]\<rparr>)"
    by (simp add: frame_def)
  then show ?thesis
    unfolding emitFinished_def Let_def
    by (rule frame_trans) (rule frame_onProcessFinished)
qed

lemma frame_stop: "frame s (stop a s)"
  unfolding stop_def
  by (blast intro: frame_trans frame_updWrapper frame_emitFinished
      sameFixed_kill sameFixed_disconnectSocket)

lemma frame_disconnected: "frame s (disconnected a s)"
  unfolding disconnected_def
  by (blast intro: frame_trans frame_updWrapper frame_emitFinished sameFixed_kill)

lemma frame_procuuid: "frame s s' \<Longrightarrow> procuuid (wrappers s' b) = procuuid (wrappers s b)"
  by (simp add: frame_def sameFixed_def)

lemma frame_itemUuid: "frame s s' \<Longrightarrow> itemUuid s' = itemUuid s"
  by (simp add: fun_eq_iff itemUuid_def frame_procuuid)

lemma frame_itemRedirected: "frame s s' \<Longrightarrow> itemRedirected s' = itemRedirected s"
  by (simp add: fun_eq_iff itemRedirected_def frame_def sameFixed_def)

lemma emitted_finishConsole [simp]: "emitted (finishConsole b wd u c s) = emitted s"
  by (simp add: finishConsole_def Let_def)

lemma emitted_onProcessFinished [simp]: "emitted (onProcessFinished u c s) = emitted s"
  by (simp add: onProcessFinished_def Let_def split: option.splits)

lemma emitted_emitFinished:
  "emitted (emitFinished a c s) = emitted s @ [SigFinished (procuuid (wrappers s a)) c]"
  by (simp add: emitFinished_def Let_def)

lemma emitted_stop:
  "emitted (stop a s) = emitted s @ [SigFinished (procuuid (wrappers s a)) KILLED]"
proof -
  have "frame s (updWrapper a kill (updWrapper a disconnectSocket s))"
    by (blast intro: frame_trans frame_updWrapper sameFixed_kill sameFixed_disconnectSocket)
  then show ?thesis
    by (simp add: stop_def emitted_emitFinished frame_procuuid)
qed

lemma emitted_disconnected:
  "emitted (disconnected a s) = emitted s @ [SigFinished (procuuid (wrappers s a)) DISCONNECTED]"
proof -
  have "frame s (updWrapper a kill s)"
    by (blast intro: frame_updWrapper sameFixed_kill)
  then show ?thesis
    by (simp add: disconnected_def emitted_emitFinished frame_procuuid)
qed

section \<open>Example states\<close>

text \<open>The manager after \<^verbatim>\<open>__init__\<close>, and after one redirected launch with a new console.\<close>

definition RunManager_init :: sys where
  "RunManager_init =
     \<lparr>wrappers = (\<lambda>a. RemoteProcessWrapper [] [] None False), nextWrapper = 0,
      processes = [], prologueProcesses = [], waitTimer = False, prologueTimer = False,
      ioConsoles = [], statusBar = [], tooltips = [], errorLog = [], emitted = [],
      intOverflow = (\<lambda>n. Inl OverflowError)\<rparr>"

definition launchRedirected :: launch_env where
  "launchRedirected =
     \<lparr>dlgAccepted = True, paramRedirected = True, newUuid = ''c1'', tcpPort = 5000,
      timeNow = 0, consoleReuse = NO_REUSE, spawnError = None, procScans = []\<rparr>"

definition sysLaunched :: sys where
  "sysLaunched = run ''script.py'' False launchRedirected RunManager_init"

lemmas eval_defs =
  RunManager_init_def launchRedirected_def sysLaunched_def run_def Let_def start_def
  pickWidget_def addIOConsole_def IOConsoleWidget_def RemoteProcessWrapper_def
  updWrapper_def updConsole_def appendMsg_def
  stop_def emitFinished_def onProcessFinished_def finishConsole_def getProcessIndex_def
  itemUuid_def itemRedirected_def delIndex_def kill_def wait_def closeSocket_def
  disconnectSocket_def getChildPID_def KILLED_def DISCONNECTED_def

section \<open>C2: stop called n times\<close>

text \<open>
  C2, as the spec states it: n calls of \<^verbatim>\<open>stop()\<close> on one wrapper emit
  \<^verbatim>\<open>finished(correlationId, KILLED)\<close> once in total. The method has no memory of an
  earlier call: after a redirected launch whose child has already exited, two calls
  emit the event twice.
\<close>

theorem C2_counterexample_stop_twice:
  "emitted (stop 0 (stop 0 (updWrapper 0 (\<lambda>w. w\<lparr>proc := Some Exited\<rparr>) sysLaunched))) =
     [SigFinished ''c1'' KILLED, SigFinished ''c1'' KILLED]"
  by (simp add: eval_defs)

text \<open>
  C2, amended: n calls of \<^verbatim>\<open>stop()\<close> on the wrapper at address \<open>a\<close> emit
  \<^verbatim>\<open>finished(correlationId, KILLED)\<close> n times, once per call and nothing else, in every
  state and so also when the child had exited before the first call.
\<close>

theorem C2_stop_emits_once_per_call:
  "emitted ((stop a ^^ n) s) =
     emitted s @ replicate n (SigFinished (procuuid (wrappers s a)) KILLED)"
proof (induction n)
  case 0
  show ?case by simp
next
  case (Suc n)
  have "frame s ((stop a ^^ n) s)"
    by (induction n) (auto intro: frame_trans frame_stop)
  then have "procuuid (wrappers ((stop a ^^ n) s) a) = procuuid (wrappers s a)"
    by (rule frame_procuuid)
  with Suc show ?case
    by (simp add: emitted_stop replicate_append_same)
qed

section \<open>C9: the console reuse policy\<close>

lemma findIndex_Some_iff:
  "findIndex P xs = Some i \<longleftrightarrow> i < length xs \<and> P (xs ! i) \<and> (\<forall>j<i. \<not> P (xs ! j))"
proof (induction xs arbitrary: i)
  case Nil
  show ?case by simp
next
  case (Cons x xs)
  show ?case
  proof (cases "P x")
    case True
    then show ?thesis by (cases i) auto
  next
    case False
    show ?thesis
    proof (cases i)
      case 0
      with False show ?thesis by simp
    next
      case (Suc i')
      have "(\<forall>j<Suc i'. \<not> P ((x # xs) ! j)) \<longleftrightarrow> (\<forall>j<i'. \<not> P (xs ! j))"
        using False by (auto simp: less_Suc_eq_0_disj)
      with False Suc Cons.IH [of i'] show ?thesis by auto
    qed
  qed
qed

lemma findIndex_None_iff: "findIndex P xs = None \<longleftrightarrow> (\<forall>x\<in>set xs. \<not> P x)"
  by (induction xs) auto

text \<open>
  The state after the redirected launch was stopped: no entry has the id of its console.
\<close>

definition sysStopped :: sys where
  "sysStopped = stop 0 sysLaunched"

lemma sysStopped_consoles:
  "ioConsoles sysStopped =
     [\<lparr>cprocuuid = ''c1'', ckind = RUN,
       content = [IDEMessage ''Starting script.py...'', ScriptFinished, IDEMessage ''Script killed'']\<rparr>]"
  by (simp add: sysStopped_def eval_defs)

lemma sysStopped_processes: "processes sysStopped = []"
  by (simp add: sysStopped_def eval_defs)

text \<open>
  Two further redirected launches in the mode \<^verbatim>\<open>REUSE\<close>, the second while the first is
  still tracked.
\<close>

definition sysSecond :: sys where
  "sysSecond =
     run ''second.py'' False (launchRedirected\<lparr>newUuid := ''c2'', consoleReuse := REUSE\<rparr>)
       sysStopped"

definition sysThird :: sys where
  "sysThird =
     run ''third.py'' False (launchRedirected\<lparr>newUuid := ''c3'', consoleReuse := REUSE\<rparr>)
       sysSecond"

lemma sysSecond_fields:
  "processes sysSecond = [\<lparr>procWrapper = 1, widget = Some 0, kind = RUN\<rparr>]"
  "procuuid (wrappers sysSecond (Suc 0)) = ''c2''"
  "ioConsoles sysSecond =
     [\<lparr>cprocuuid = ''c1'', ckind = RUN,
       content = [IDEMessage ''Starting script.py...'', ScriptFinished, IDEMessage ''Script killed'',
                  IDEMessage ''Starting second.py...'']\<rparr>]"
  by (simp_all add: sysSecond_def sysStopped_def eval_defs)

text \<open>
  C9: the reuse modes hand out a console that a tracked entry holds. The console of the
  first launch carries the id \<open>c1\<close>. After that launch was stopped, the launch \<open>c2\<close> gets
  this console, which still carries \<open>c1\<close>. While \<open>c2\<close> is in the registry and holds the
  console, \<^verbatim>\<open>__pickWidget\<close> finds no entry with the id \<open>c1\<close> and picks the same console for
  \<open>c3\<close>, with \<^verbatim>\<open>CLEAR_AND_REUSE\<close> after clearing what \<open>c2\<close> has written; after the third
  launch both tracked entries hold the one console.
\<close>

theorem C9_console_of_a_tracked_entry_is_reassigned:
  "processes sysStopped = [] \<and> map cprocuuid (ioConsoles sysStopped) = [''c1'']
   \<and> getProcessIndex sysSecond ''c2'' = Some 0
   \<and> widget (processes sysSecond ! 0) = Some 0
   \<and> map cprocuuid (ioConsoles sysSecond) = [''c1'']
   \<and> fst (pickWidget ''c3'' RUN REUSE sysSecond) = 0
   \<and> fst (pickWidget ''c3'' RUN CLEAR_AND_REUSE sysSecond) = 0
   \<and> content (ioConsoles (snd (pickWidget ''c3'' RUN CLEAR_AND_REUSE sysSecond)) ! 0) = []
   \<and> map (\<lambda>item. (itemUuid sysThird item, widget item)) (processes sysThird) =
        [(''c2'', Some 0), (''c3'', Some 0)]
   \<and> length (ioConsoles sysThird) = 1"
proof -
  have 1: "processes sysStopped = [] \<and> map cprocuuid (ioConsoles sysStopped) = [''c1'']"
    by (simp add: sysStopped_consoles sysStopped_processes)
  have 2: "getProcessIndex sysSecond ''c2'' = Some 0 \<and> widget (processes sysSecond ! 0) = Some 0
      \<and> map cprocuuid (ioConsoles sysSecond) = [''c1'']"
    by (simp add: sysSecond_fields getProcessIndex_def itemUuid_def)
  have 3: "fst (pickWidget ''c3'' RUN REUSE sysSecond) = 0
      \<and> fst (pickWidget ''c3'' RUN CLEAR_AND_REUSE sysSecond) = 0
      \<and> content (ioConsoles (snd (pickWidget ''c3'' RUN CLEAR_AND_REUSE sysSecond)) ! 0) = []"
    by (simp add: pickWidget_def sysSecond_fields getProcessIndex_def itemUuid_def updConsole_def
        clear_def)
  have 4: "map (\<lambda>item. (itemUuid sysThird item, widget item)) (processes sysThird) =
        [(''c2'', Some 0), (''c3'', Some 0)] \<and> length (ioConsoles sysThird) = 1"
    by (simp add: sysThird_def sysSecond_def sysStopped_def eval_defs)
  from 1 2 3 4 show ?thesis by simp
qed

section \<open>C10: waitDetached and the poll timer\<close>

text \<open>An entry that the poll timer drops: not redirected, and \<^verbatim>\<open>waitDetached()\<close> is true.\<close>

definition reaped :: "sys \<Rightarrow> remote_process \<Rightarrow> bool" where
  "reaped s item \<longleftrightarrow> \<not> itemRedirected s item \<and> waitDetached (wrappers s (procWrapper item))"

lemma reaped_processes_update [simp]: "reaped (s\<lparr>processes := ps\<rparr>) = reaped s"
  by (simp add: fun_eq_iff reaped_def itemRedirected_def)

lemma waitTimerLoop_filter:
  "k \<le> length (processes s) \<Longrightarrow>
   waitTimerLoop k (need, s) =
     Inr (need \<or> (\<exists>item\<in>set (take k (processes s)). \<not> itemRedirected s item \<and> \<not> reaped s item),
          s\<lparr>processes := filter (\<lambda>item. \<not> reaped s item) (take k (processes s)) @ drop k (processes s)\<rparr>)"
proof (induction k arbitrary: need s)
  case 0
  show ?case by simp
next
  case (Suc k)
  let ?ps = "processes s"
  from Suc.prems have k: "k < length ?ps" by simp
  have tk: "take (Suc k) ?ps = take k ?ps @ [?ps ! k]"
    using k by (simp add: take_Suc_conv_app_nth)
  have dk: "drop k ?ps = ?ps ! k # drop (Suc k) ?ps"
    using k by (simp add: Cons_nth_drop_Suc)
  show ?case
  proof (cases "reaped s (?ps ! k)")
    case True
    let ?s' = "s\<lparr>processes := delIndex k ?ps\<rparr>"
    have len: "k \<le> length (processes ?s')"
      using k by (simp add: delIndex_def)
    have t': "take k (delIndex k ?ps) = take k ?ps" "drop k (delIndex k ?ps) = drop (Suc k) ?ps"
      using k by (simp_all add: delIndex_def)
    have ir: "itemRedirected ?s' = itemRedirected s"
      by (simp add: fun_eq_iff itemRedirected_def)
    from True have "waitTimerLoop (Suc k) (need, s) = waitTimerLoop k (need, ?s')"
      using k by (simp add: reaped_def Let_def)
    also have "\<dots> = Inr (need \<or> (\<exists>item\<in>set (take k ?ps). \<not> itemRedirected s item \<and> \<not> reaped s item),
          ?s'\<lparr>processes := filter (\<lambda>item. \<not> reaped s item) (take k ?ps) @ drop (Suc k) ?ps\<rparr>)"
      using Suc.IH [OF len, of need] by (simp add: t' ir)
    finally show ?thesis
      using True by (simp add: tk)
  next
    case False
    show ?thesis
    proof (cases "itemRedirected s (?ps ! k)")
      case True
      then have "waitTimerLoop (Suc k) (need, s) = waitTimerLoop k (need, s)"
        using k by (simp add: Let_def)
      with Suc.IH [of s need] k True False show ?thesis
        by (simp add: tk dk)
    next
      case nr: False
      with False have "waitTimerLoop (Suc k) (need, s) = waitTimerLoop k (True, s)"
        using k by (simp add: Let_def reaped_def)
      with Suc.IH [of s True] k nr False show ?thesis
        by (simp add: tk dk)
    qed
  qed
qed

text \<open>A launch that is not redirected.\<close>

definition launchDetached :: launch_env where
  "launchDetached =
     \<lparr>dlgAccepted = True, paramRedirected = False, newUuid = ''d1'', tcpPort = 5000,
      timeNow = 0, consoleReuse = NO_REUSE, spawnError = None, procScans = []\<rparr>"

definition sysDetached :: sys where
  "sysDetached = run ''script.py'' False launchDetached RunManager_init"

text \<open>
  C10: \<^verbatim>\<open>waitDetached()\<close> always returns a value, and the value is true when the child
  has exited, when the wrapper has no process handle and when polling raises (false
  for a live child only). \<^verbatim>\<open>__onWaitTimer\<close> returns normally, keeps exactly the entries
  that are redirected or still alive, and starts the timer again exactly when an entry
  that is not redirected is left.
\<close>

theorem C10_waitDetached_and_poll_timer:
  "waitDetached w = (proc w = None \<or> proc w = Some Exited \<or> proc w = Some Broken)
   \<and> (\<exists>s'. onWaitTimer s = Inr s'
         \<and> processes s' = filter (\<lambda>item. \<not> reaped s item) (processes s)
         \<and> waitTimer s' = (\<exists>item\<in>set (processes s'). \<not> itemRedirected s item))"
proof -
  have a: "waitDetached w = (proc w = None \<or> proc w = Some Exited \<or> proc w = Some Broken)"
  proof (cases "proc w")
    case None
    then show ?thesis by (simp add: waitDetached_def)
  next
    case (Some p)
    then show ?thesis by (cases p) (simp_all add: waitDetached_def)
  qed
  let ?s0 = "s\<lparr>waitTimer := False\<rparr>"
  have r: "reaped ?s0 = reaped s" "itemRedirected ?s0 = itemRedirected s"
    by (simp_all add: fun_eq_iff reaped_def itemRedirected_def)
  have "waitTimerLoop (length (processes s)) (False, ?s0) =
     Inr (\<exists>item\<in>set (processes s). \<not> itemRedirected s item \<and> \<not> reaped s item,
          ?s0\<lparr>processes := filter (\<lambda>item. \<not> reaped s item) (processes s)\<rparr>)"
    using waitTimerLoop_filter [of "length (processes s)" ?s0 False] by (simp add: r)
  then have b: "\<exists>s'. onWaitTimer s = Inr s'
         \<and> processes s' = filter (\<lambda>item. \<not> reaped s item) (processes s)
         \<and> waitTimer s' = (\<exists>item\<in>set (processes s'). \<not> itemRedirected s item)"
    by (auto simp: onWaitTimer_def)
  from a b show ?thesis by blast
qed

theorem C10_witness:
  "waitDetached (wrappers sysDetached 0) = False
   \<and> waitDetached ((wrappers sysDetached 0)\<lparr>proc := Some Exited\<rparr>) = True
   \<and> (\<exists>s'. onWaitTimer (updWrapper 0 (\<lambda>w. w\<lparr>proc := Some Exited\<rparr>) sysDetached) = Inr s'
          \<and> processes s' = [] \<and> waitTimer s' = False)"
proof -
  have p: "proc (wrappers sysDetached 0) = Some Alive"
    by (simp add: sysDetached_def launchDetached_def eval_defs)
  let ?s = "updWrapper 0 (\<lambda>w. w\<lparr>proc := Some Exited\<rparr>) sysDetached"
  have r: "filter (\<lambda>item. \<not> reaped ?s item) (processes ?s) = []"
    by (simp add: sysDetached_def launchDetached_def eval_defs reaped_def waitDetached_def)
  from C10_waitDetached_and_poll_timer [of "wrappers sysDetached 0" ?s]
  obtain s' where s': "onWaitTimer ?s = Inr s'"
      "processes s' = filter (\<lambda>item. \<not> reaped ?s item) (processes ?s)"
      "waitTimer s' = (\<exists>item\<in>set (processes s'). \<not> itemRedirected ?s item)"
    and a: "waitDetached (wrappers sysDetached 0) =
      (proc (wrappers sysDetached 0) = None \<or> proc (wrappers sysDetached 0) = Some Exited \<or>
       proc (wrappers sysDetached 0) = Some Broken)"
    by blast
  from s'(2) r have e: "processes s' = []" by simp
  with s'(3) have "waitTimer s' = False" by simp
  with s'(1) e have "\<exists>s'. onWaitTimer ?s = Inr s' \<and> processes s' = [] \<and> waitTimer s' = False"
    by blast
  moreover from a p have "waitDetached (wrappers sysDetached 0) = False" by simp
  moreover have "waitDetached ((wrappers sysDetached 0)\<lparr>proc := Some Exited\<rparr>) = True"
    by (simp add: waitDetached_def)
  ultimately show ?thesis by blast
qed

section \<open>A connected child\<close>

definition newSocket :: socket where
  "newSocket = \<lparr>buffered = [], slots = False, sockClosed = False, sent = []\<rparr>"

text \<open>The bytes of \<open>received\<close> arrive on the socket of the wrapper at \<open>a\<close>.\<close>

definition arrive :: "nat \<Rightarrow> line list \<Rightarrow> sys \<Rightarrow> sys" where
  "arrive a received s =
     updWrapper a
       (\<lambda>w. case clientSocket w of
               None \<Rightarrow> w
             | Some sock \<Rightarrow> w\<lparr>clientSocket := Some (sock\<lparr>buffered := buffered sock @ received\<rparr>)\<rparr>) s"

text \<open>The child of the redirected launch has connected and sent its correlation id.\<close>

definition sysRunning :: sys where
  "sysRunning =
     (case waitForHandshake (newSocket\<lparr>buffered := [Message METHOD_PROC_ID_INFO ''c1'' JNull]\<rparr>)
             sysLaunched of
        Inr (r, so, s) \<Rightarrow> s
      | Inl (e, so, s) \<Rightarrow> s)"

lemmas eval_defs2 =
  newSocket_def arrive_def sysRunning_def waitForHandshake_def onProcessStarted_def
  setSocket_def connectSocket_def sendStart_def sendJSONCommand_def sendExit_def
  tryMessage_def handleMessage_def readLine_def logParseFailure_def emitToConsole_def
  isTypeOrValueError_def safeSocketClose_def

lemma sysRunning_wrapper:
  "wrappers sysRunning 0 =
     \<lparr>procuuid = ''c1'', path = ''script.py'', redirected = True, state = Some STATE_RUNNING,
      serverPort = Some 5000,
      clientSocket = Some \<lparr>buffered = [], slots = True, sockClosed = False,
                           sent = [(METHOD_PROLOGUE_CONTINUE, ''c1'', JNull)]\<rparr>,
      proc = Some Alive, ioSlots = Some 0, scans = []\<rparr>"
  by (simp add: eval_defs eval_defs2 parseClientLine.simps)

lemma sysRunning_processes:
  "processes sysRunning = [\<lparr>procWrapper = 0, widget = Some 0, kind = RUN\<rparr>]"
  by (simp add: eval_defs eval_defs2 parseClientLine.simps)

lemma frame_sendExit:
  "sendExit a s = Inr s' \<Longrightarrow> frame s s'"
  "sendExit a s = Inl (e, s') \<Longrightarrow> frame s s'"
  by (auto simp: sendExit_def Let_def sendJSONCommand_def frame_def sameFixed_def
      wrappers_updWrapper disconnectSocket_def split: option.splits sum.splits if_splits)

lemma frame_emitToConsole: "frame s (emitToConsole a sg m s)"
  by (simp add: frame_def)

lemma frame_handleMessage:
  "handleMessage a m p s = Inr s' \<Longrightarrow> frame s s'"
  "handleMessage a m p s = Inl (e, s') \<Longrightarrow> frame s s'"
  by (auto simp: handleMessage_def frame_emitToConsole split: if_splits sum.splits
      intro: frame_trans frame_sendExit frame_emitFinished)

lemma frame_logParseFailure: "frame s (logParseFailure s)"
  by (simp add: frame_def logParseFailure_def)

lemma frame_tryMessage:
  "tryMessage a l s = Inr s' \<Longrightarrow> frame s s'"
  "tryMessage a l s = Inl (e, s') \<Longrightarrow> frame s s'"
  by (auto simp: tryMessage_def split: line.splits if_splits sum.splits prod.splits
      intro: frame_trans frame_handleMessage frame_logParseFailure)

lemma frame_parseClientLine:
  "(parseClientLine a s = Inr s' \<longrightarrow> frame s s') \<and>
   (parseClientLine a s = Inl (e, s') \<longrightarrow> frame s s')"
proof (induction a s rule: parseClientLine.induct)
  case (1 a s)
  show ?case
  proof (cases "clientSocket (wrappers s a)")
    case None
    then show ?thesis by (simp add: parseClientLine.simps [of a s])
  next
    case (Some sock)
    show ?thesis
    proof (cases "buffered sock")
      case Nil
      with Some show ?thesis by (simp add: parseClientLine.simps [of a s])
    next
      case (Cons received rest)
      let ?s0 = "updWrapper a readLine s"
      have f0: "frame s ?s0"
        by (rule frame_updWrapper) simp
      show ?thesis
      proof (cases "tryMessage a received ?s0")
        case (Inl es)
        obtain e1 s1 where es: "es = (e1, s1)" by (cases es)
        with Inl have "frame ?s0 s1" by (auto intro: frame_tryMessage)
        with f0 have "frame s s1" by (rule frame_trans)
        with Inl es Some Cons show ?thesis
          by (auto simp: parseClientLine.simps [of a s])
      next
        case (Inr s1)
        then have "frame ?s0 s1" by (rule frame_tryMessage)
        with f0 have f1: "frame s s1" by (rule frame_trans)
        from "1.IH" [OF Some Cons Inr]
        have "(parseClientLine a s1 = Inr s' \<longrightarrow> frame s1 s') \<and>
              (parseClientLine a s1 = Inl (e, s') \<longrightarrow> frame s1 s')" .
        with f1 Inr Some Cons show ?thesis
          by (auto simp: parseClientLine.simps [of a s] intro: frame_trans)
      qed
    qed
  qed
qed

lemma frame_state: "frame s s' \<Longrightarrow> state (wrappers s' b) = state (wrappers s b)"
  by (simp add: frame_def sameFixed_def)

section \<open>C3: attaching the connection\<close>

text \<open>
  C3, as the spec states it: \<^verbatim>\<open>setSocket\<close> succeeds only in the Prologue state and only
  once, and rejects any other call with an \<^verbatim>\<open>InvalidStateError\<close>. The method tests
  nothing: on a wrapper that is Running and has a socket, a second call returns
  normally and replaces the socket.
\<close>

theorem C3_counterexample_second_socket_accepted:
  "state (wrappers sysRunning 0) = Some STATE_RUNNING
   \<and> clientSocket (wrappers sysRunning 0) \<noteq> None
   \<and> (\<exists>s'. setSocket 0 newSocket sysRunning = Inr s'
          \<and> clientSocket (wrappers s' 0) =
              Some (newSocket\<lparr>slots := True, sent := [(METHOD_PROLOGUE_CONTINUE, ''c1'', JNull)]\<rparr>))"
  by (simp add: sysRunning_wrapper setSocket_def updWrapper_def newSocket_def connectSocket_def
      parseClientLine.simps [of 0] sendStart_def sendJSONCommand_def Let_def)

text \<open>
  C3, amended: \<^verbatim>\<open>setSocket\<close> rejects no call. In every state of the wrapper, with or
  without an earlier socket, a call with a socket that has no buffered line returns
  normally: the socket is stored with its slots connected, the state is Running and
  the prologue-continue message is written to the child. With buffered lines the call
  handles them first; whenever it returns normally the state is Running and
  prologue-continue is the last message written.
\<close>

theorem C3_setSocket_never_rejects:
  "(buffered sock = [] \<longrightarrow>
      setSocket a sock s =
        Inr (updWrapper a
               (\<lambda>w. w\<lparr>state := Some STATE_RUNNING,
                       clientSocket :=
                         Some (sock\<lparr>slots := True,
                                     sent := sent sock @
                                       [(METHOD_PROLOGUE_CONTINUE, procuuid w, JNull)]\<rparr>)\<rparr>) s))
   \<and> (\<forall>s'. setSocket a sock s = Inr s' \<longrightarrow>
         state (wrappers s' a) = Some STATE_RUNNING \<and>
         (\<exists>sock'. clientSocket (wrappers s' a) = Some sock' \<and> sent sock' \<noteq> [] \<and>
            last (sent sock') = (METHOD_PROLOGUE_CONTINUE, procuuid (wrappers s a), JNull)))"
proof -
  have A: "buffered sock = [] \<longrightarrow>
      setSocket a sock s =
        Inr (updWrapper a
               (\<lambda>w. w\<lparr>state := Some STATE_RUNNING,
                       clientSocket :=
                         Some (sock\<lparr>slots := True,
                                     sent := sent sock @
                                       [(METHOD_PROLOGUE_CONTINUE, procuuid w, JNull)]\<rparr>)\<rparr>) s)"
    by (simp add: setSocket_def Let_def updWrapper_def connectSocket_def
        parseClientLine.simps [of a] sendStart_def sendJSONCommand_def)
  have B: "state (wrappers s' a) = Some STATE_RUNNING \<and>
         (\<exists>sock'. clientSocket (wrappers s' a) = Some sock' \<and> sent sock' \<noteq> [] \<and>
            last (sent sock') = (METHOD_PROLOGUE_CONTINUE, procuuid (wrappers s a), JNull))"
    if r: "setSocket a sock s = Inr s'" for s'
  proof -
    let ?s1 = "updWrapper a
        (\<lambda>w. connectSocket (w\<lparr>clientSocket := Some sock, state := Some STATE_RUNNING\<rparr>)) s"
    have w1: "state (wrappers ?s1 a) = Some STATE_RUNNING"
      "procuuid (wrappers ?s1 a) = procuuid (wrappers s a)"
      by (simp_all add: wrappers_updWrapper connectSocket_def)
    from r obtain s2 where p: "parseClientLine a ?s1 = Inr s2" and st: "sendStart a s2 = Inr s'"
      by (auto simp: setSocket_def Let_def split: sum.splits)
    from p have f: "frame ?s1 s2"
      using frame_parseClientLine [of a ?s1 s2] by simp
    from st obtain sock2 where s2: "clientSocket (wrappers s2 a) = Some sock2"
      and s': "s' = updWrapper a (\<lambda>w. w\<lparr>clientSocket := Some (sock2\<lparr>sent := sent sock2 @
            [(METHOD_PROLOGUE_CONTINUE, procuuid (wrappers s2 a), JNull)]\<rparr>)\<rparr>) s2"
      by (auto simp: sendStart_def Let_def sendJSONCommand_def split: option.splits)
    from f w1 have "state (wrappers s2 a) = Some STATE_RUNNING"
      "procuuid (wrappers s2 a) = procuuid (wrappers s a)"
      by (simp_all add: frame_state frame_procuuid)
    with s' show ?thesis
      by (simp add: wrappers_updWrapper)
  qed
  from A B show ?thesis by blast
qed

theorem C3_witness:
  "buffered newSocket = []
   \<and> (\<exists>s'. setSocket 0 newSocket sysLaunched = Inr s'
          \<and> state (wrappers sysLaunched 0) = Some STATE_PROLOGUE
          \<and> state (wrappers s' 0) = Some STATE_RUNNING
          \<and> clientSocket (wrappers s' 0) =
               Some (newSocket\<lparr>slots := True, sent := [(METHOD_PROLOGUE_CONTINUE, ''c1'', JNull)]\<rparr>))"
proof -
  have b: "buffered newSocket = []"
    by (simp add: newSocket_def)
  have w: "state (wrappers sysLaunched 0) = Some STATE_PROLOGUE" "procuuid (wrappers sysLaunched 0) = ''c1''"
    by (simp_all add: eval_defs)
  from C3_setSocket_never_rejects [of newSocket 0 sysLaunched] b
  have "setSocket 0 newSocket sysLaunched =
        Inr (updWrapper 0
               (\<lambda>w. w\<lparr>state := Some STATE_RUNNING,
                       clientSocket :=
                         Some (newSocket\<lparr>slots := True,
                                     sent := sent newSocket @
                                       [(METHOD_PROLOGUE_CONTINUE, procuuid w, JNull)]\<rparr>)\<rparr>) sysLaunched)"
    by blast
  with b w show ?thesis
    by (simp add: wrappers_updWrapper newSocket_def)
qed

section \<open>C4: a handshake that fails\<close>

text \<open>
  C4: when the handshake fails the connection is closed and the registry is unchanged.
  The registry is unchanged, but \<^verbatim>\<open>__waitForHandshake\<close> closes the socket in two of the
  four cases only. With no line within the second the method falls through, and with a
  correlation id that no entry has it returns the params: in both the socket is left as
  it came, not closed.
\<close>

theorem C4_handshake_leaves_socket_open:
  "waitForHandshake newSocket sysLaunched = Inr (None, Some newSocket, sysLaunched)
   \<and> waitForHandshake (newSocket\<lparr>buffered := [Message METHOD_PROC_ID_INFO ''unknown'' JNull]\<rparr>)
        sysLaunched = Inr (Some JNull, Some newSocket, sysLaunched)
   \<and> sockClosed newSocket = False"
proof -
  have "getProcessIndex sysLaunched ''unknown'' = None"
    by (simp add: eval_defs)
  then show ?thesis
    by (simp add: waitForHandshake_def newSocket_def)
qed

section \<open>C5: a launch that fails to spawn\<close>

lemma pickWidget_fields:
  assumes "pickWidget u k m s = (i, s')"
  shows "i < length (ioConsoles s')" "processes s' = processes s"
    "prologueProcesses s' = prologueProcesses s" "prologueTimer s' = prologueTimer s"
    "waitTimer s' = waitTimer s" "errorLog s' = errorLog s" "wrappers s' = wrappers s"
    "nextWrapper s' = nextWrapper s" "emitted s' = emitted s"
proof -
  show "i < length (ioConsoles s')"
    using assms
    by (auto simp: pickWidget_def addIOConsole_def updConsole_def findIndex_Some_iff
        split: if_splits option.splits)
qed (use assms in \<open>auto simp: pickWidget_def addIOConsole_def split: if_splits option.splits\<close>)

text \<open>
  C5, as the spec states it: after a spawn failure no timer has been started for the
  entry and the timer and watch state is as if the launch had not happened. For a
  redirected launch \<^verbatim>\<open>run\<close> appends the watch entry and starts the prologue timer
  before it calls \<^verbatim>\<open>start\<close>, and the \<^verbatim>\<open>except\<close> branch takes neither back.
\<close>

theorem C5_counterexample_prologue_timer_started:
  "prologueTimer RunManager_init = False \<and> prologueProcesses RunManager_init = []
   \<and> processes (run ''script.py'' False (launchRedirected\<lparr>spawnError := Some ''No such file''\<rparr>)
                  RunManager_init) = []
   \<and> prologueTimer (run ''script.py'' False (launchRedirected\<lparr>spawnError := Some ''No such file''\<rparr>)
                      RunManager_init) = True
   \<and> prologueProcesses (run ''script.py'' False
                           (launchRedirected\<lparr>spawnError := Some ''No such file''\<rparr>)
                           RunManager_init) = [(''c1'', 0)]"
  by (simp add: eval_defs)

text \<open>
  C5, amended: when \<^verbatim>\<open>start\<close> raises, \<^verbatim>\<open>run\<close> leaves the registry as it was before
  the launch and does not start the detached-poll timer. For a launch that is not
  redirected the error is logged and the prologue list and timer are untouched. For a
  redirected launch the error is appended to the console of the launch, and the watch
  entry appended and the prologue timer started before the spawn both stay.
\<close>

theorem C5_spawn_failure:
  assumes "spawnError env = Some msg" and "needDialog \<longrightarrow> dlgAccepted env"
  shows "processes (run p needDialog env s) = processes s
     \<and> waitTimer (run p needDialog env s) = waitTimer s
     \<and> (\<not> paramRedirected env \<longrightarrow>
          prologueProcesses (run p needDialog env s) = prologueProcesses s \<and>
          prologueTimer (run p needDialog env s) = prologueTimer s \<and>
          errorLog (run p needDialog env s) = errorLog s @ [msg])
     \<and> (paramRedirected env \<longrightarrow>
          prologueProcesses (run p needDialog env s) =
            prologueProcesses s @ [(newUuid env, timeNow env)] \<and>
          prologueTimer (run p needDialog env s) = True \<and>
          (\<exists>i<length (ioConsoles (run p needDialog env s)).
             content (ioConsoles (run p needDialog env s) ! i) \<noteq> [] \<and>
             last (content (ioConsoles (run p needDialog env s) ! i)) =
               IDEMessage (''Failed to start: '' @ msg)))"
proof (cases "paramRedirected env")
  case False
  have nd: "(needDialog \<and> \<not> dlgAccepted env) = False"
    using assms(2) by blast
  from False assms(1) show ?thesis
    by (simp add: nd run_def Let_def start_def)
next
  case True
  define a where "a = nextWrapper s"
  define s1c where "s1c =
    (let s1 = s\<lparr>wrappers := (wrappers s)
                 (a := (RemoteProcessWrapper (newUuid env) p (Some (tcpPort env)) True)
                          \<lparr>scans := procScans env\<rparr>),
               nextWrapper := Suc a\<rparr>;
         s1a = updWrapper a (\<lambda>w. w\<lparr>state := Some STATE_PROLOGUE\<rparr>) s1;
         s1b = s1a\<lparr>prologueProcesses := prologueProcesses s1a @ [(newUuid env, timeNow env)]\<rparr>
     in if \<not> prologueTimer s1b then s1b\<lparr>prologueTimer := True\<rparr> else s1b)"
  define pk where "pk = pickWidget (newUuid env) RUN (consoleReuse env) s1c"
  define i where "i = fst pk"
  define s1d where "s1d = snd pk"
  have "pickWidget (newUuid env) RUN (consoleReuse env) s1c = (i, s1d)"
    by (simp add: pk_def i_def s1d_def)
  note pf = pickWidget_fields [OF this]
  have c: "processes s1c = processes s" "waitTimer s1c = waitTimer s"
    "prologueProcesses s1c = prologueProcesses s @ [(newUuid env, timeNow env)]"
    "prologueTimer s1c = True"
    by (simp_all add: s1c_def Let_def)
  define s3 where "s3 =
    (let s1e = updConsole i (appendMsg (IDEMessage (''Starting '' @ p @ ''...''))) s1d;
         s1f = updWrapper a (\<lambda>w. w\<lparr>ioSlots := Some i\<rparr>) s1e
     in s1f\<lparr>processes := processes s1f @ [\<lparr>procWrapper = a, widget = Some i, kind = RUN\<rparr>]\<rparr>)"
  define s4 where "s4 = updConsole i (appendMsg (IDEMessage (''Failed to start: '' @ msg))) s3"
  have nd: "(needDialog \<and> \<not> dlgAccepted env) = False"
    using assms(2) by blast
  have r: "run p needDialog env s = s4\<lparr>processes := butlast (processes s4)\<rparr>"
    using assms(1) True
    by (simp add: nd run_def Let_def start_def split_beta s4_def s3_def s1d_def i_def pk_def
        s1c_def a_def)
  have "processes (run p needDialog env s) = processes s"
    by (simp add: r s4_def s3_def Let_def pf c)
  moreover have "waitTimer (run p needDialog env s) = waitTimer s"
    by (simp add: r s4_def s3_def Let_def pf c)
  moreover have "prologueProcesses (run p needDialog env s) =
      prologueProcesses s @ [(newUuid env, timeNow env)]"
    by (simp add: r s4_def s3_def Let_def pf c)
  moreover have "prologueTimer (run p needDialog env s) = True"
    by (simp add: r s4_def s3_def Let_def pf c)
  moreover have "i < length (ioConsoles (run p needDialog env s))"
    using pf(1) by (simp add: r s4_def s3_def Let_def updConsole_def)
  moreover have "content (ioConsoles (run p needDialog env s) ! i) \<noteq> [] \<and>
      last (content (ioConsoles (run p needDialog env s) ! i)) = IDEMessage (''Failed to start: '' @ msg)"
    using pf(1) by (simp add: r s4_def s3_def Let_def updConsole_def appendMsg_def)
  ultimately show ?thesis
    using True by blast
qed

theorem C5_witness:
  "spawnError (launchDetached\<lparr>spawnError := Some ''No such file''\<rparr>) = Some ''No such file''
   \<and> \<not> paramRedirected (launchDetached\<lparr>spawnError := Some ''No such file''\<rparr>)
   \<and> paramRedirected (launchRedirected\<lparr>spawnError := Some ''No such file''\<rparr>)
   \<and> processes (run ''script.py'' False (launchDetached\<lparr>spawnError := Some ''No such file''\<rparr>)
                  sysLaunched) = processes sysLaunched
   \<and> waitTimer (run ''script.py'' False (launchDetached\<lparr>spawnError := Some ''No such file''\<rparr>)
                  sysLaunched) = False
   \<and> errorLog (run ''script.py'' False (launchDetached\<lparr>spawnError := Some ''No such file''\<rparr>)
                  sysLaunched) = [''No such file'']
   \<and> prologueProcesses (run ''script.py'' False (launchRedirected\<lparr>spawnError := Some ''No such file''\<rparr>)
                  RunManager_init) = [(''c1'', 0)]"
proof -
  have e: "waitTimer sysLaunched = False" "errorLog sysLaunched = []"
    "prologueProcesses RunManager_init = []"
    by (simp_all add: eval_defs)
  from C5_spawn_failure [of "launchDetached\<lparr>spawnError := Some ''No such file''\<rparr>"
      "''No such file''" False "''script.py''" sysLaunched]
    C5_spawn_failure [of "launchRedirected\<lparr>spawnError := Some ''No such file''\<rparr>"
      "''No such file''" False "''script.py''" RunManager_init]
  show ?thesis
    by (simp add: e launchDetached_def launchRedirected_def)
qed

section \<open>C7: lines that the handler cannot digest\<close>

text \<open>
  C7: no incoming line makes \<^verbatim>\<open>__parseClientLine\<close> raise. The handler catches
  \<^verbatim>\<open>TypeError\<close> and \<^verbatim>\<open>ValueError\<close> only: a stdout message whose params are a dictionary
  without the key \<^verbatim>\<open>text\<close> raises \<^verbatim>\<open>KeyError\<close>, which leaves the method.
\<close>

theorem C7_missing_key_escapes_the_handler:
  "\<exists>s'. parseClientLine 0 (arrive 0 [Message METHOD_STDOUT ''c1'' (JDict [])] sysRunning) =
          Inl (KeyError, s')"
  by (simp add: parseClientLine.simps [of 0] arrive_def updWrapper_def sysRunning_wrapper
      tryMessage_def handleMessage_def isTypeOrValueError_def)

section \<open>Deleting from the registry\<close>

lemma length_delIndex: "j < length xs \<Longrightarrow> length (delIndex j xs) = length xs - 1"
  by (simp add: delIndex_def)

lemma nth_delIndex_below: "m < j \<Longrightarrow> j < length xs \<Longrightarrow> delIndex j xs ! m = xs ! m"
  by (simp add: delIndex_def nth_append)

lemma nth_delIndex_above:
  "j \<le> m \<Longrightarrow> Suc m < length xs \<Longrightarrow> delIndex j xs ! m = xs ! Suc m"
  by (simp add: delIndex_def nth_append min_def)

lemma set_delIndex_subset: "set (delIndex j xs) \<subseteq> set xs"
  by (auto simp: delIndex_def dest: in_set_takeD in_set_dropD)

lemma set_delIndex: "j < length xs \<Longrightarrow> set xs = insert (xs ! j) (set (delIndex j xs))"
proof -
  assume "j < length xs"
  then have "xs = take j xs @ xs ! j # drop (Suc j) xs"
    by (rule id_take_nth_drop)
  then have "set xs = set (take j xs @ xs ! j # drop (Suc j) xs)"
    by simp
  then show ?thesis
    by (simp add: delIndex_def)
qed

lemma findIndex_first:
  assumes "k < length xs" and "P (xs ! k)"
  shows "\<exists>j\<le>k. findIndex P xs = Some j \<and> P (xs ! j)"
proof (cases "findIndex P xs")
  case None
  with assms show ?thesis
    by (auto simp: findIndex_None_iff)
next
  case (Some j)
  then have j: "j < length xs" "P (xs ! j)" "\<forall>m<j. \<not> P (xs ! m)"
    by (simp_all add: findIndex_Some_iff)
  with assms(2) have "j \<le> k"
    by (meson not_le)
  with Some j show ?thesis by simp
qed

lemma getProcessIndex_frame:
  "frame s s' \<Longrightarrow> processes s' = processes s \<Longrightarrow> getProcessIndex s' u = getProcessIndex s u"
  by (simp add: getProcessIndex_def frame_itemUuid)

lemma processes_finishConsole [simp]: "processes (finishConsole b wd u c s) = processes s"
  by (simp add: finishConsole_def Let_def)

lemma processes_onProcessFinished:
  "processes (onProcessFinished u c s) =
     (case getProcessIndex s u of None \<Rightarrow> processes s | Some j \<Rightarrow> delIndex j (processes s))"
  by (simp add: onProcessFinished_def Let_def split: option.splits)

lemma processes_emitFinished:
  "processes (emitFinished a c s) =
     (case getProcessIndex s (procuuid (wrappers s a)) of
        None \<Rightarrow> processes s
      | Some j \<Rightarrow> delIndex j (processes s))"
proof -
  let ?s0 = "s\<lparr>emitted := emitted s @ [SigFinished (procuuid (wrappers s a)) c]\<rparr>"
  have "getProcessIndex ?s0 (procuuid (wrappers s a)) = getProcessIndex s (procuuid (wrappers s a))"
    by (rule getProcessIndex_frame) (simp_all add: frame_def)
  then show ?thesis
    by (simp add: emitFinished_def Let_def processes_onProcessFinished split: option.splits)
qed

lemma processes_stop:
  "processes (stop a s) =
     (case getProcessIndex s (procuuid (wrappers s a)) of
        None \<Rightarrow> processes s
      | Some j \<Rightarrow> delIndex j (processes s))"
proof -
  let ?s0 = "updWrapper a kill (updWrapper a disconnectSocket s)"
  have f: "frame s ?s0"
    by (blast intro: frame_trans frame_updWrapper sameFixed_kill sameFixed_disconnectSocket)
  then have "getProcessIndex ?s0 (procuuid (wrappers s a)) = getProcessIndex s (procuuid (wrappers s a))"
    by (rule getProcessIndex_frame) simp
  with f show ?thesis
    by (simp add: stop_def processes_emitFinished frame_procuuid split: option.splits)
qed

lemma countRedirected_filter:
  "k \<le> length (processes s) \<Longrightarrow>
   countRedirected k s c = c + length (filter (itemRedirected s) (take k (processes s)))"
proof (induction k arbitrary: c)
  case 0
  show ?case by simp
next
  case (Suc k)
  then have "take (Suc k) (processes s) = take k (processes s) @ [processes s ! k]"
    by (simp add: take_Suc_conv_app_nth)
  with Suc show ?case by simp
qed

lemma getDetachedCount_filter:
  "getDetachedCount s = length (filter (itemRedirected s) (processes s))"
  by (simp add: getDetachedCount_def countRedirected_filter)

text \<open>No entry at an index from \<open>k\<close> on is redirected.\<close>

definition noRedirectedFrom :: "nat \<Rightarrow> sys \<Rightarrow> bool" where
  "noRedirectedFrom k s \<longleftrightarrow>
     (\<forall>j. k \<le> j \<and> j < length (processes s) \<longrightarrow> \<not> itemRedirected s (processes s ! j))"

lemma frame_fold_stop: "frame s (fold stop as s)"
proof (induction as arbitrary: s)
  case Nil
  show ?case by simp
next
  case (Cons a as)
  have "frame s (stop a s)" by (rule frame_stop)
  then show ?case
    using Cons.IH [of "stop a s"] by (auto intro: frame_trans)
qed

lemma set_processes_stop: "set (processes (stop a s)) \<subseteq> set (processes s)"
  by (auto simp: processes_stop split: option.splits dest: subsetD [OF set_delIndex_subset])

lemma set_processes_fold_stop: "set (processes (fold stop as s)) \<subseteq> set (processes s)"
proof (induction as arbitrary: s)
  case Nil
  show ?case by simp
next
  case (Cons a as)
  from Cons.IH [of "stop a s"] set_processes_stop [of a s] show ?case
    by auto
qed

text \<open>
  The first loop of \<^verbatim>\<open>killAll\<close> is a sequence of \<^verbatim>\<open>stop()\<close> calls on wrappers of
  redirected entries; it never reads beyond the list, it leaves no redirected entry,
  and for every redirected entry a wrapper with its correlation id is among the stopped.
\<close>

lemma killAllLoop_stops:
  "k \<le> length (processes s) \<Longrightarrow> noRedirectedFrom k s \<Longrightarrow>
   \<exists>as. killAllLoop k s = Inr (fold stop as s) \<and>
        noRedirectedFrom 0 (fold stop as s) \<and>
        (\<forall>a\<in>set as. \<exists>item\<in>set (processes s). itemRedirected s item \<and> procWrapper item = a) \<and>
        (\<forall>item\<in>set (processes s). itemRedirected s item \<longrightarrow>
            (\<exists>a\<in>set as. procuuid (wrappers s a) = itemUuid s item))"
proof (induction k arbitrary: s)
  case 0
  then have "\<forall>item\<in>set (processes s). \<not> itemRedirected s item"
    by (auto simp: noRedirectedFrom_def in_set_conv_nth)
  with 0 have "killAllLoop 0 s = Inr (fold stop [] s) \<and>
        noRedirectedFrom 0 (fold stop [] s) \<and>
        (\<forall>a\<in>set []. \<exists>item\<in>set (processes s). itemRedirected s item \<and> procWrapper item = a) \<and>
        (\<forall>item\<in>set (processes s). itemRedirected s item \<longrightarrow>
            (\<exists>a\<in>set []. procuuid (wrappers s a) = itemUuid s item))"
    by simp
  then show ?case by blast
next
  case (Suc k)
  let ?ps = "processes s"
  let ?item = "?ps ! k"
  from Suc.prems have k: "k < length ?ps" by simp
  show ?case
  proof (cases "itemRedirected s ?item")
    case False
    have "noRedirectedFrom k s"
      unfolding noRedirectedFrom_def
    proof (intro allI impI)
      fix m assume m: "k \<le> m \<and> m < length (processes s)"
      show "\<not> itemRedirected s (processes s ! m)"
      proof (cases "m = k")
        case True
        with False show ?thesis by simp
      next
        case ne: False
        with m have "Suc k \<le> m" by simp
        with Suc.prems(2) m show ?thesis
          by (simp add: noRedirectedFrom_def)
      qed
    qed
    with Suc.IH [of s] k obtain as where "killAllLoop k s = Inr (fold stop as s)"
      "noRedirectedFrom 0 (fold stop as s)"
      "\<forall>a\<in>set as. \<exists>item\<in>set (processes s). itemRedirected s item \<and> procWrapper item = a"
      "\<forall>item\<in>set (processes s). itemRedirected s item \<longrightarrow>
            (\<exists>a\<in>set as. procuuid (wrappers s a) = itemUuid s item)"
      by auto
    moreover have "killAllLoop (Suc k) s = killAllLoop k s"
      using False k by (simp add: Let_def)
    ultimately show ?thesis by auto
  next
    case True
    let ?a = "procWrapper ?item"
    let ?u = "procuuid (wrappers s ?a)"
    let ?s1 = "stop ?a s"
    have f1: "frame s ?s1" by (rule frame_stop)
    from findIndex_first [of k ?ps "\<lambda>item. itemUuid s item = ?u"] k
    obtain j where j: "j \<le> k" "getProcessIndex s ?u = Some j" "itemUuid s (?ps ! j) = ?u"
      by (auto simp: getProcessIndex_def itemUuid_def)
    then have p1: "processes ?s1 = delIndex j ?ps"
      by (simp add: processes_stop)
    from j k have jl: "j < length ?ps" by simp
    have len: "k \<le> length (processes ?s1)"
      using k jl by (simp add: p1 length_delIndex)
    have nr: "noRedirectedFrom k ?s1"
      unfolding noRedirectedFrom_def
    proof (intro allI impI)
      fix m assume m: "k \<le> m \<and> m < length (processes ?s1)"
      with jl have sm: "Suc m < length ?ps"
        by (auto simp: p1 length_delIndex)
      with m j(1) have "processes ?s1 ! m = ?ps ! Suc m"
        by (simp add: p1 nth_delIndex_above)
      moreover from Suc.prems(2) m sm have "\<not> itemRedirected s (?ps ! Suc m)"
        by (simp add: noRedirectedFrom_def)
      ultimately show "\<not> itemRedirected ?s1 (processes ?s1 ! m)"
        by (simp add: frame_itemRedirected [OF f1])
    qed
    from Suc.IH [OF len nr] obtain as where as: "killAllLoop k ?s1 = Inr (fold stop as ?s1)"
      "noRedirectedFrom 0 (fold stop as ?s1)"
      "\<forall>a\<in>set as. \<exists>item\<in>set (processes ?s1). itemRedirected ?s1 item \<and> procWrapper item = a"
      "\<forall>item\<in>set (processes ?s1). itemRedirected ?s1 item \<longrightarrow>
            (\<exists>a\<in>set as. procuuid (wrappers ?s1 a) = itemUuid ?s1 item)"
      by auto
    have sub: "set (processes ?s1) \<subseteq> set ?ps"
      by (rule set_processes_stop)
    have 1: "killAllLoop (Suc k) s = Inr (fold stop (?a # as) s)"
      using True k as(1) by (simp add: Let_def)
    have 2: "noRedirectedFrom 0 (fold stop (?a # as) s)"
      using as(2) by simp
    have 3: "\<forall>a\<in>set (?a # as). \<exists>item\<in>set ?ps. itemRedirected s item \<and> procWrapper item = a"
    proof
      fix a assume "a \<in> set (?a # as)"
      then consider "a = ?a" | "a \<in> set as" by auto
      then show "\<exists>item\<in>set ?ps. itemRedirected s item \<and> procWrapper item = a"
      proof cases
        case 1
        with True k show ?thesis by auto
      next
        case 2
        with as(3) sub show ?thesis
          by (auto simp: frame_itemRedirected [OF f1])
      qed
    qed
    have 4: "\<forall>item\<in>set ?ps. itemRedirected s item \<longrightarrow>
            (\<exists>a\<in>set (?a # as). procuuid (wrappers s a) = itemUuid s item)"
    proof (intro ballI impI)
      fix item assume x: "item \<in> set ?ps" "itemRedirected s item"
      show "\<exists>a\<in>set (?a # as). procuuid (wrappers s a) = itemUuid s item"
      proof (cases "item \<in> set (processes ?s1)")
        case True
        with as(4) x(2) show ?thesis
          by (auto simp: frame_itemRedirected [OF f1] frame_itemUuid [OF f1]
              frame_procuuid [OF f1])
      next
        case False
        with x(1) set_delIndex [OF jl] have "item = ?ps ! j"
          by (auto simp: p1)
        with j(3) show ?thesis by simp
      qed
    qed
    from 1 2 3 4 show ?thesis by blast
  qed
qed

section \<open>Events\<close>

text \<open>
  What can happen to the manager between two returns to the event loop: a launch, a
  kill request, \<^verbatim>\<open>killAll\<close>, the firing of a timer that is active, a new connection,
  and the two notifications of a socket, which reach the wrapper only through the
  slots connected to it. An exception that leaves a slot leaves the state as it is at
  the raise. Inside \<^verbatim>\<open>killAll\<close> no other event is pending.
\<close>

datatype event =
    EvRun string bool launch_env
  | EvKill procuuid
  | EvKillAll
  | EvWaitTimer
  | EvPrologueTimer "nat \<Rightarrow> real"
  | EvNewConnection socket
  | EvReadyRead nat "line list"
  | EvDisconnected nat

definition slotsConnected :: "nat \<Rightarrow> sys \<Rightarrow> bool" where
  "slotsConnected a s \<longleftrightarrow>
     a < nextWrapper s \<and>
     (case clientSocket (wrappers s a) of None \<Rightarrow> False | Some sock \<Rightarrow> slots sock)"

fun fire :: "event \<Rightarrow> sys \<Rightarrow> sys" where
  "fire (EvRun p needDialog env) s = run p needDialog env s"
| "fire (EvKill u) s = kill_uuid u s"
| "fire EvKillAll s =
     (case killAll id s of None \<Rightarrow> s | Some (Inl (e, s')) \<Rightarrow> s' | Some (Inr s') \<Rightarrow> s')"
| "fire EvWaitTimer s =
     (if waitTimer s then (case onWaitTimer s of Inl (e, s') \<Rightarrow> s' | Inr s' \<Rightarrow> s') else s)"
| "fire (EvPrologueTimer now) s =
     (if prologueTimer s then (case onPrologueTimer now s of Inl (e, s') \<Rightarrow> s' | Inr s' \<Rightarrow> s')
      else s)"
| "fire (EvNewConnection sock) s =
     (case waitForHandshake sock s of Inl (e, so, s') \<Rightarrow> s' | Inr (r, so, s') \<Rightarrow> s')"
| "fire (EvReadyRead a received) s =
     (if slotsConnected a s then
        (case parseClientLine a (arrive a received s) of Inl (e, s') \<Rightarrow> s' | Inr s' \<Rightarrow> s')
      else s)"
| "fire (EvDisconnected a) s = (if slotsConnected a s then disconnected a s else s)"

fun fires :: "event list \<Rightarrow> sys \<Rightarrow> sys" where
  "fires [] s = s"
| "fires (e # es) s = fires es (fire e s)"

text \<open>
  A wrapper of the embedding holds its one socket by value, so a socket that a second
  \<^verbatim>\<open>setSocket\<close> replaces is gone with its slots. The runs considered are therefore those
  in which a child connects once: a connection that names a tracked correlation id
  arrives only while that wrapper has no socket. The launches of a run get correlation
  ids outside a given set \<open>U\<close> (the ids in use), as \<^verbatim>\<open>uuid.uuid1()\<close> provides.
\<close>

definition firstConnection :: "socket \<Rightarrow> sys \<Rightarrow> bool" where
  "firstConnection sock s =
     (case buffered sock of
        [] \<Rightarrow> True
      | received # rest \<Rightarrow>
          (case received of
             Message m u params \<Rightarrow>
               (case getProcessIndex s u of
                  None \<Rightarrow> True
                | Some j \<Rightarrow> clientSocket (wrappers s (procWrapper (processes s ! j))) = None)
           | NotUtf8 \<Rightarrow> True
           | Unparsable e \<Rightarrow> True))"

fun admissible :: "procuuid set \<Rightarrow> event \<Rightarrow> sys \<Rightarrow> bool" where
  "admissible U (EvRun p needDialog env) s = (newUuid env \<notin> U)"
| "admissible U (EvNewConnection sock) s = firstConnection sock s"
| "admissible U (EvKill u) s = True"
| "admissible U EvKillAll s = True"
| "admissible U EvWaitTimer s = True"
| "admissible U (EvPrologueTimer now) s = True"
| "admissible U (EvReadyRead a received) s = True"
| "admissible U (EvDisconnected a) s = True"

fun admissibleRun :: "procuuid set \<Rightarrow> event list \<Rightarrow> sys \<Rightarrow> bool" where
  "admissibleRun U [] s = True"
| "admissibleRun U (e # es) s = (admissible U e s \<and> admissibleRun U es (fire e s))"

section \<open>Wrappers that no event reaches\<close>

text \<open>
  For a set \<open>U\<close> of correlation ids: \<open>finishedFor U s\<close> are the finished events emitted
  so far for an id of \<open>U\<close>; the state is \<open>inert\<close> for \<open>U\<close> when no entry of the registry has
  an id of \<open>U\<close> and no wrapper created so far with an id of \<open>U\<close> has a socket; a step
  is \<open>quiet\<close> for \<open>U\<close> when it keeps the fixed fields of all wrappers, adds no entry,
  creates no wrapper, gives no socket to a wrapper with an id of \<open>U\<close> and emits no
  finished event for an id of \<open>U\<close>.
\<close>

fun isFinishedFor :: "procuuid set \<Rightarrow> signal \<Rightarrow> bool" where
  "isFinishedFor U (SigFinished u c) = (u \<in> U)"
| "isFinishedFor U (SigClientStdout t) = False"
| "isFinishedFor U (SigClientStderr t) = False"
| "isFinishedFor U (SigClientInput t e) = False"

definition finishedFor :: "procuuid set \<Rightarrow> sys \<Rightarrow> signal list" where
  "finishedFor U s = filter (isFinishedFor U) (emitted s)"

definition inert :: "procuuid set \<Rightarrow> sys \<Rightarrow> bool" where
  "inert U s \<longleftrightarrow>
     (\<forall>item\<in>set (processes s). itemUuid s item \<notin> U) \<and>
     (\<forall>a<nextWrapper s. procuuid (wrappers s a) \<in> U \<longrightarrow> clientSocket (wrappers s a) = None)"

definition quiet :: "procuuid set \<Rightarrow> sys \<Rightarrow> sys \<Rightarrow> bool" where
  "quiet U s s' \<longleftrightarrow>
     frame s s' \<and> set (processes s') \<subseteq> set (processes s) \<and> nextWrapper s' = nextWrapper s \<and>
     (\<forall>a. procuuid (wrappers s a) \<in> U \<and> clientSocket (wrappers s a) = None
          \<longrightarrow> clientSocket (wrappers s' a) = None) \<and>
     finishedFor U s' = finishedFor U s"

lemma quiet_refl [simp]: "quiet U s s"
  by (simp add: quiet_def)

lemma quiet_trans: "quiet U s s' \<Longrightarrow> quiet U s' s'' \<Longrightarrow> quiet U s s''"
  unfolding quiet_def
  by (auto intro: frame_trans simp: frame_procuuid)

lemma inert_quiet: "inert U s \<Longrightarrow> quiet U s s' \<Longrightarrow> inert U s'"
  unfolding inert_def quiet_def
  by (auto simp: frame_procuuid frame_itemUuid)

lemma quiet_procuuid: "quiet U s s' \<Longrightarrow> procuuid (wrappers s' b) = procuuid (wrappers s b)"
  by (simp add: quiet_def frame_procuuid)

lemma quiet_fields:
  "wrappers s' = wrappers s \<Longrightarrow> processes s' = processes s \<Longrightarrow> nextWrapper s' = nextWrapper s
   \<Longrightarrow> finishedFor U s' = finishedFor U s \<Longrightarrow> quiet U s s'"
  by (simp add: quiet_def frame_def)

lemma quiet_updConsole [simp]: "quiet U s (updConsole wd g s)"
  by (rule quiet_fields) (simp_all add: finishedFor_def)

lemma quiet_updWrapper:
  "(\<And>w. sameFixed w (f w)) \<Longrightarrow>
   (procuuid (wrappers s a) \<in> U \<Longrightarrow> clientSocket (wrappers s a) = None
      \<Longrightarrow> clientSocket (f (wrappers s a)) = None) \<Longrightarrow>
   quiet U s (updWrapper a f s)"
  by (simp add: quiet_def frame_updWrapper finishedFor_def wrappers_updWrapper)

lemma clientSocket_closeSocket [simp]: "clientSocket (closeSocket w) = None"
  by (simp add: closeSocket_def split: option.splits)

lemma clientSocket_wait [simp]: "clientSocket (wait w) = None"
  by (simp add: wait_def)

lemma clientSocket_kill [simp]: "clientSocket (kill w) = None"
  by (simp add: kill_def Let_def split: prod.splits)

lemma clientSocket_disconnectSocket_None:
  "clientSocket w = None \<Longrightarrow> clientSocket (disconnectSocket w) = None"
  by (simp add: disconnectSocket_def)

lemma quiet_updConsole_after: "quiet U s s1 \<Longrightarrow> quiet U s (updConsole wd g s1)"
  by (erule quiet_trans) simp

lemma nextWrapper_finishConsole [simp]: "nextWrapper (finishConsole b wd u c s) = nextWrapper s"
  by (simp add: finishConsole_def Let_def)

lemma quiet_finishConsole: "quiet U s (finishConsole b wd u c s)"
proof -
  have "clientSocket (wrappers s a) = None \<Longrightarrow>
      clientSocket (wrappers (finishConsole b wd u c s) a) = None" for a
    by (simp add: finishConsole_def Let_def wrappers_updWrapper)
  then show ?thesis
    by (simp add: quiet_def frame_finishConsole finishedFor_def)
qed

lemma quiet_delete: "quiet U s (s\<lparr>processes := delIndex j (processes s)\<rparr>)"
  using set_delIndex_subset [of j "processes s"]
  by (simp add: quiet_def frame_def finishedFor_def)

lemma quiet_onProcessFinished: "quiet U s (onProcessFinished u c s)"
proof (cases "getProcessIndex s u")
  case None
  then show ?thesis by (simp add: onProcessFinished_def)
next
  case (Some j)
  define s1 where "s1 = (if itemRedirected s (processes s ! j) then
      (case widget (processes s ! j) of None \<Rightarrow> s
       | Some wd \<Rightarrow> finishConsole (procWrapper (processes s ! j)) wd u c s) else s)"
  have "quiet U s s1"
    by (simp add: s1_def quiet_finishConsole split: option.splits)
  moreover have "quiet U s1 (s1\<lparr>processes := delIndex j (processes s1)\<rparr>)"
    by (rule quiet_delete)
  ultimately have "quiet U s (s1\<lparr>processes := delIndex j (processes s1)\<rparr>)"
    by (rule quiet_trans)
  with Some show ?thesis
    by (simp add: onProcessFinished_def Let_def s1_def)
qed

lemma quiet_emitFinished:
  "procuuid (wrappers s a) \<notin> U \<Longrightarrow> quiet U s (emitFinished a c s)"
proof -
  assume n: "procuuid (wrappers s a) \<notin> U"
  let ?s0 = "s\<lparr>emitted := emitted s @ [SigFinished (procuuid (wrappers s a)) c]\<rparr>"
  from n have "quiet U s ?s0"
    by (intro quiet_fields) (simp_all add: finishedFor_def)
  then show ?thesis
    unfolding emitFinished_def Let_def
    by (rule quiet_trans) (rule quiet_onProcessFinished)
qed

lemma quiet_stop: "procuuid (wrappers s a) \<notin> U \<Longrightarrow> quiet U s (stop a s)"
proof -
  assume n: "procuuid (wrappers s a) \<notin> U"
  let ?s1 = "updWrapper a disconnectSocket s"
  let ?s2 = "updWrapper a kill ?s1"
  have q1: "quiet U s ?s1"
    by (rule quiet_updWrapper) (simp_all add: clientSocket_disconnectSocket_None)
  have q2: "quiet U ?s1 ?s2"
    by (rule quiet_updWrapper) simp_all
  from q1 q2 have q: "quiet U s ?s2" by (rule quiet_trans)
  then have "procuuid (wrappers ?s2 a) = procuuid (wrappers s a)"
    by (rule quiet_procuuid)
  with n have "quiet U ?s2 (emitFinished a KILLED ?s2)"
    by (intro quiet_emitFinished) simp
  with q show ?thesis
    unfolding stop_def by (rule quiet_trans)
qed

lemma quiet_disconnected: "procuuid (wrappers s a) \<notin> U \<Longrightarrow> quiet U s (disconnected a s)"
proof -
  assume n: "procuuid (wrappers s a) \<notin> U"
  let ?s2 = "updWrapper a kill s"
  have q: "quiet U s ?s2"
    by (rule quiet_updWrapper) simp_all
  then have "procuuid (wrappers ?s2 a) = procuuid (wrappers s a)"
    by (rule quiet_procuuid)
  with n have "quiet U ?s2 (emitFinished a DISCONNECTED ?s2)"
    by (intro quiet_emitFinished) simp
  with q show ?thesis
    unfolding disconnected_def by (rule quiet_trans)
qed

lemma quiet_updWrapper_other:
  "(\<And>w. sameFixed w (f w)) \<Longrightarrow> procuuid (wrappers s a) \<notin> U \<Longrightarrow> quiet U s (updWrapper a f s)"
  by (rule quiet_updWrapper) simp_all

lemma quiet_sendExit:
  assumes "procuuid (wrappers s a) \<notin> U"
  shows "sendExit a s = Inr s' \<Longrightarrow> quiet U s s'"
    and "sendExit a s = Inl (e, s') \<Longrightarrow> quiet U s s'"
proof -
  let ?s1 = "updWrapper a disconnectSocket s"
  have q1: "quiet U s ?s1"
    by (rule quiet_updWrapper) (simp_all add: clientSocket_disconnectSocket_None)
  have u1: "procuuid (wrappers ?s1 a) \<notin> U"
    using assms by (simp add: quiet_procuuid [OF q1])
  have q2: "quiet U ?s1 (updWrapper a (\<lambda>w. w\<lparr>clientSocket := Some sock'\<rparr>) ?s1)" for sock'
    using u1 by (intro quiet_updWrapper_other) (simp_all add: sameFixed_def)
  show "sendExit a s = Inr s' \<Longrightarrow> quiet U s s'"
    using quiet_trans [OF q1 q2] by (auto simp: sendExit_def Let_def split: sum.splits)
  show "sendExit a s = Inl (e, s') \<Longrightarrow> quiet U s s'"
    using q1 by (auto simp: sendExit_def Let_def split: sum.splits)
qed

lemma quiet_emitToConsole:
  "\<not> isFinishedFor U sg \<Longrightarrow> quiet U s (emitToConsole a sg m s)"
proof -
  assume n: "\<not> isFinishedFor U sg"
  then have "quiet U s (s\<lparr>emitted := emitted s @ [sg]\<rparr>)"
    by (intro quiet_fields) (simp_all add: finishedFor_def)
  then show ?thesis
    unfolding emitToConsole_def Let_def
    by (auto split: option.splits intro: quiet_updConsole_after)
qed

lemma quiet_handleMessage:
  assumes "procuuid (wrappers s a) \<notin> U"
  shows "handleMessage a m p s = Inr s' \<Longrightarrow> quiet U s s'"
    and "handleMessage a m p s = Inl (e, s') \<Longrightarrow> quiet U s s'"
proof -
  have ex: "quiet U s (emitFinished a c s1)" if "sendExit a s = Inr s1" for s1 c
  proof -
    from that assms have q: "quiet U s s1" by (rule quiet_sendExit [rotated])
    then have "procuuid (wrappers s1 a) \<notin> U"
      using assms by (simp add: quiet_procuuid)
    then have "quiet U s1 (emitFinished a c s1)" by (rule quiet_emitFinished)
    with q show ?thesis by (rule quiet_trans)
  qed
  show "handleMessage a m p s = Inr s' \<Longrightarrow> quiet U s s'"
    using ex by (auto simp: handleMessage_def quiet_emitToConsole split: if_splits sum.splits)
  show "handleMessage a m p s = Inl (e, s') \<Longrightarrow> quiet U s s'"
    using assms
    by (auto simp: handleMessage_def split: if_splits sum.splits intro: quiet_sendExit)
qed

lemma quiet_logParseFailure: "quiet U s s1 \<Longrightarrow> quiet U s (logParseFailure s1)"
proof (erule quiet_trans)
  show "quiet U s1 (logParseFailure s1)"
    by (rule quiet_fields) (simp_all add: logParseFailure_def finishedFor_def)
qed

lemma quiet_tryMessage:
  assumes "procuuid (wrappers s a) \<notin> U"
  shows "tryMessage a l s = Inr s' \<Longrightarrow> quiet U s s'"
    and "tryMessage a l s = Inl (e, s') \<Longrightarrow> quiet U s s'"
  using assms
  by (auto simp: tryMessage_def split: line.splits if_splits sum.splits prod.splits
      intro: quiet_handleMessage quiet_logParseFailure)

lemma quiet_parseClientLine:
  "procuuid (wrappers s a) \<notin> U \<Longrightarrow>
   (parseClientLine a s = Inr s' \<longrightarrow> quiet U s s') \<and>
   (parseClientLine a s = Inl (e, s') \<longrightarrow> quiet U s s')"
proof (induction a s rule: parseClientLine.induct)
  case (1 a s)
  show ?case
  proof (cases "clientSocket (wrappers s a)")
    case None
    then show ?thesis by (simp add: parseClientLine.simps [of a s])
  next
    case (Some sock)
    show ?thesis
    proof (cases "buffered sock")
      case Nil
      with Some show ?thesis by (simp add: parseClientLine.simps [of a s])
    next
      case (Cons received rest)
      let ?s0 = "updWrapper a readLine s"
      have q0: "quiet U s ?s0"
        using "1.prems" by (intro quiet_updWrapper_other) simp_all
      then have u0: "procuuid (wrappers ?s0 a) \<notin> U"
        using "1.prems" by (simp add: quiet_procuuid)
      show ?thesis
      proof (cases "tryMessage a received ?s0")
        case (Inl es)
        obtain e1 s1 where es: "es = (e1, s1)" by (cases es)
        with Inl u0 have "quiet U ?s0 s1" by (auto intro: quiet_tryMessage)
        with q0 have "quiet U s s1" by (rule quiet_trans)
        with Inl es Some Cons show ?thesis
          by (auto simp: parseClientLine.simps [of a s])
      next
        case (Inr s1)
        with u0 have "quiet U ?s0 s1" by (auto intro: quiet_tryMessage)
        with q0 have q1: "quiet U s s1" by (rule quiet_trans)
        then have "procuuid (wrappers s1 a) \<notin> U"
          using "1.prems" by (simp add: quiet_procuuid)
        with "1.IH" [OF Some Cons Inr]
        have "(parseClientLine a s1 = Inr s' \<longrightarrow> quiet U s1 s') \<and>
              (parseClientLine a s1 = Inl (e, s') \<longrightarrow> quiet U s1 s')" .
        with Inr Some Cons show ?thesis
          by (auto simp: parseClientLine.simps [of a s] intro: quiet_trans [OF q1])
      qed
    qed
  qed
qed

lemma getProcessIndex_Some:
  "getProcessIndex s u = Some j \<Longrightarrow> j < length (processes s) \<and> itemUuid s (processes s ! j) = u"
  by (simp add: getProcessIndex_def findIndex_Some_iff)

lemma inert_registered:
  "inert U s \<Longrightarrow> getProcessIndex s u = Some j \<Longrightarrow>
   procuuid (wrappers s (procWrapper (processes s ! j))) \<notin> U"
  using getProcessIndex_Some [of s u j]
  by (auto simp: inert_def itemUuid_def)

lemma quiet_sendStart:
  assumes "procuuid (wrappers s a) \<notin> U"
  shows "sendStart a s = Inr s' \<Longrightarrow> quiet U s s'"
    and "sendStart a s = Inl (e, s') \<Longrightarrow> quiet U s s'"
proof -
  have q: "quiet U s (updWrapper a (\<lambda>w. w\<lparr>clientSocket := Some sock'\<rparr>) s)" for sock'
    using assms by (intro quiet_updWrapper_other) (simp_all add: sameFixed_def)
  show "sendStart a s = Inr s' \<Longrightarrow> quiet U s s'"
    using q by (auto simp: sendStart_def Let_def split: sum.splits)
  show "sendStart a s = Inl (e, s') \<Longrightarrow> quiet U s s'"
    by (auto simp: sendStart_def Let_def split: sum.splits)
qed

text \<open>\<^verbatim>\<open>setSocket\<close> writes the state: it is quiet but for that field.\<close>

definition quietButState :: "procuuid set \<Rightarrow> sys \<Rightarrow> sys \<Rightarrow> bool" where
  "quietButState U s s' \<longleftrightarrow>
     (\<forall>b. procuuid (wrappers s' b) = procuuid (wrappers s b)) \<and>
     set (processes s') \<subseteq> set (processes s) \<and> nextWrapper s' = nextWrapper s \<and>
     (\<forall>a. procuuid (wrappers s a) \<in> U \<and> clientSocket (wrappers s a) = None
          \<longrightarrow> clientSocket (wrappers s' a) = None) \<and>
     finishedFor U s' = finishedFor U s"

lemma quiet_quietButState: "quiet U s s' \<Longrightarrow> quietButState U s s'"
  by (simp add: quiet_def quietButState_def frame_procuuid)

lemma quietButState_trans:
  "quietButState U s s' \<Longrightarrow> quietButState U s' s'' \<Longrightarrow> quietButState U s s''"
  unfolding quietButState_def by auto

lemma inert_quietButState: "inert U s \<Longrightarrow> quietButState U s s' \<Longrightarrow> inert U s'"
  unfolding inert_def quietButState_def itemUuid_def by auto

lemma quietButState_setSocket:
  assumes "procuuid (wrappers s a) \<notin> U"
  shows "setSocket a sock s = Inr s' \<Longrightarrow> quietButState U s s'"
    and "setSocket a sock s = Inl (e, s') \<Longrightarrow> quietButState U s s'"
proof -
  let ?s1 = "updWrapper a
      (\<lambda>w. connectSocket (w\<lparr>clientSocket := Some sock, state := Some STATE_RUNNING\<rparr>)) s"
  have q1: "quietButState U s ?s1"
    using assms
    by (simp add: quietButState_def wrappers_updWrapper connectSocket_def finishedFor_def)
  have u1: "procuuid (wrappers ?s1 a) \<notin> U"
    using assms by (simp add: wrappers_updWrapper connectSocket_def)
  have p: "quiet U ?s1 s2" if "parseClientLine a ?s1 = Inr s2 \<or> parseClientLine a ?s1 = Inl (e, s2)"
    for s2 e
    using that quiet_parseClientLine [OF u1, of s2 e] by auto
  show "setSocket a sock s = Inr s' \<Longrightarrow> quietButState U s s'"
  proof -
    assume "setSocket a sock s = Inr s'"
    then obtain s2 where s2: "parseClientLine a ?s1 = Inr s2" "sendStart a s2 = Inr s'"
      by (auto simp: setSocket_def Let_def split: sum.splits)
    from s2(1) have q2: "quiet U ?s1 s2" using p by blast
    then have "procuuid (wrappers s2 a) \<notin> U"
      using u1 by (simp add: quiet_procuuid)
    with s2(2) have "quiet U s2 s'" by (rule quiet_sendStart [rotated])
    with q2 have "quiet U ?s1 s'" by (rule quiet_trans)
    with q1 show ?thesis
      by (blast intro: quietButState_trans quiet_quietButState)
  qed
  show "setSocket a sock s = Inl (e, s') \<Longrightarrow> quietButState U s s'"
  proof -
    assume r: "setSocket a sock s = Inl (e, s')"
    show ?thesis
    proof (cases "parseClientLine a ?s1")
      case (Inl es)
      with r have "parseClientLine a ?s1 = Inl (e, s')"
        by (simp add: setSocket_def Let_def)
      then have "quiet U ?s1 s'" using p by blast
      with q1 show ?thesis
        by (blast intro: quietButState_trans quiet_quietButState)
    next
      case (Inr s2)
      with r have st: "sendStart a s2 = Inl (e, s')"
        by (simp add: setSocket_def Let_def)
      from Inr have q2: "quiet U ?s1 s2" using p by blast
      then have "procuuid (wrappers s2 a) \<notin> U"
        using u1 by (simp add: quiet_procuuid)
      with st have "quiet U s2 s'" by (rule quiet_sendStart [rotated])
      with q2 have "quiet U ?s1 s'" by (rule quiet_trans)
      with q1 show ?thesis
        by (blast intro: quietButState_trans quiet_quietButState)
    qed
  qed
qed

lemma quiet_onProcessStarted: "quiet U s (onProcessStarted u s)"
  by (simp add: onProcessStarted_def split: option.splits)

lemma onProcessStarted_same [simp]:
  "processes (onProcessStarted u s) = processes s" "wrappers (onProcessStarted u s) = wrappers s"
  by (simp_all add: onProcessStarted_def split: option.splits)

lemma quietButState_handshake:
  assumes "inert U s"
  shows "waitForHandshake sock s = Inr (r, so, s') \<Longrightarrow> quietButState U s s'"
    and "waitForHandshake sock s = Inl (e, so, s') \<Longrightarrow> quietButState U s s'"
proof -
  have st: "quietButState U s s'"
    if "getProcessIndex s u = Some j"
      and "setSocket (procWrapper (processes (onProcessStarted u s) ! j)) sock1 (onProcessStarted u s) = Inr s'
         \<or> setSocket (procWrapper (processes (onProcessStarted u s) ! j)) sock1 (onProcessStarted u s) = Inl (e, s')"
    for u j sock1
  proof -
    let ?s1 = "onProcessStarted u s"
    from assms that(1) have "procuuid (wrappers ?s1 (procWrapper (processes ?s1 ! j))) \<notin> U"
      by (simp add: inert_registered)
    with that(2) have "quietButState U ?s1 s'"
      by (auto intro: quietButState_setSocket)
    with quiet_quietButState [OF quiet_onProcessStarted [of U s u]] show ?thesis
      by (rule quietButState_trans)
  qed
  have fl: "quietButState U s (s\<lparr>statusBar := x\<rparr>)" "quietButState U s (s\<lparr>errorLog := y\<rparr>)" for x y
    by (simp_all add: quietButState_def finishedFor_def)
  have rf: "quietButState U s s"
    by (simp add: quietButState_def)
  show "waitForHandshake sock s = Inr (r, so, s') \<Longrightarrow> quietButState U s s'"
    using st fl rf
    by (auto simp: waitForHandshake_def Let_def
        split: list.splits line.splits if_splits option.splits sum.splits prod.splits)
  show "waitForHandshake sock s = Inl (e, so, s') \<Longrightarrow> quietButState U s s'"
    using st fl rf
    by (auto simp: waitForHandshake_def Let_def
        split: list.splits line.splits if_splits option.splits sum.splits prod.splits)
qed

lemma quiet_kill_uuid: "inert U s \<Longrightarrow> quiet U s (kill_uuid u s)"
proof (cases "getProcessIndex s u")
  case None
  then show ?thesis by (simp add: kill_uuid_def)
next
  case (Some j)
  assume "inert U s"
  then have "procuuid (wrappers s (procWrapper (processes s ! j))) \<notin> U"
    using Some by (rule inert_registered)
  then have "quiet U s (stop (procWrapper (processes s ! j)) s)"
    by (rule quiet_stop)
  with Some show ?thesis
    by (simp add: kill_uuid_def Let_def)
qed

lemma quiet_fold_stop:
  "\<forall>a\<in>set as. procuuid (wrappers s a) \<notin> U \<Longrightarrow> quiet U s (fold stop as s)"
proof (induction as arbitrary: s)
  case Nil
  show ?case by simp
next
  case (Cons a as)
  then have q: "quiet U s (stop a s)"
    by (simp add: quiet_stop)
  with Cons.prems have "\<forall>b\<in>set as. procuuid (wrappers (stop a s) b) \<notin> U"
    by (simp add: quiet_procuuid)
  then have "quiet U (stop a s) (fold stop as (stop a s))"
    by (rule Cons.IH)
  with q show ?case
    by (auto intro: quiet_trans)
qed

lemma quiet_subset:
  "wrappers s' = wrappers s \<Longrightarrow> set (processes s') \<subseteq> set (processes s) \<Longrightarrow>
   nextWrapper s' = nextWrapper s \<Longrightarrow> emitted s' = emitted s \<Longrightarrow> quiet U s s'"
  by (simp add: quiet_def frame_def finishedFor_def)

lemma quiet_onWaitTimer:
  "onWaitTimer s = Inr s' \<Longrightarrow> quiet U s s'"
  "onWaitTimer s = Inl (e, s') \<Longrightarrow> quiet U s s'"
proof -
  let ?s0 = "s\<lparr>waitTimer := False\<rparr>"
  obtain b s1 where l: "waitTimerLoop (length (processes s)) (False, ?s0) = Inr (b, s1)"
    and s1: "s1 = ?s0\<lparr>processes := filter (\<lambda>item. \<not> reaped ?s0 item) (processes ?s0)\<rparr>"
    using waitTimerLoop_filter [of "length (processes s)" ?s0 False] by simp
  have q: "quiet U s s1" "quiet U s (s1\<lparr>waitTimer := True\<rparr>)"
    by (rule quiet_subset; simp add: s1)+
  show "onWaitTimer s = Inr s' \<Longrightarrow> quiet U s s'"
    using l q by (auto simp: onWaitTimer_def split: if_splits)
  show "onWaitTimer s = Inl (e, s') \<Longrightarrow> quiet U s s'"
    using l by (simp add: onWaitTimer_def)
qed

lemma quiet_prologueLoop:
  "inert U s \<Longrightarrow>
   (prologueLoop now k (need, s) = Inr (need', s') \<longrightarrow> quiet U s s') \<and>
   (prologueLoop now k (need, s) = Inl (e, s') \<longrightarrow> quiet U s s')"
proof (induction k arbitrary: need s)
  case 0
  show ?case by auto
next
  case (Suc k)
  note IH = Suc.IH
  show ?case
  proof (cases "k < length (prologueProcesses s)")
    case False
    then show ?thesis by auto
  next
    case True
    obtain u startTime where ut: "prologueProcesses s ! k = (u, startTime)"
      by (cases "prologueProcesses s ! k")
    let ?sd = "s\<lparr>prologueProcesses := delIndex k (prologueProcesses s)\<rparr>"
    have qd: "quiet U s ?sd"
      by (rule quiet_subset) simp_all
    with Suc.prems have id: "inert U ?sd" by (rule inert_quiet)
    have del: "(prologueLoop now k (need, ?sd) = Inr (need', s') \<longrightarrow> quiet U s s') \<and>
               (prologueLoop now k (need, ?sd) = Inl (e, s') \<longrightarrow> quiet U s s')"
      using IH [OF id, of need] by (auto intro: quiet_trans [OF qd])
    show ?thesis
    proof (cases "getProcessIndex s u")
      case None
      with True ut del show ?thesis by simp
    next
      case (Some j)
      let ?item = "processes s ! j"
      show ?thesis
      proof (cases "state (wrappers s (procWrapper ?item)) \<noteq> Some STATE_PROLOGUE")
        case True
        with \<open>k < length (prologueProcesses s)\<close> ut Some del show ?thesis
          by (simp add: Let_def)
      next
        case prologue: False
        show ?thesis
        proof (cases "now k - startTime > HANDSHAKE_TIMEOUT")
          case False
          with True ut Some prologue IH [OF Suc.prems, of True] show ?thesis
            by (simp add: Let_def)
        next
          case late: True
          show ?thesis
          proof (cases "widget ?item")
            case None
            with True ut Some prologue late show ?thesis
              by (simp add: Let_def)
          next
            case (Some wd)
            let ?sc = "updConsole wd (appendMsg (IDEMessage timeoutMessage)) s"
            let ?s1 = "stop (procWrapper ?item) ?sc"
            have "procuuid (wrappers s (procWrapper ?item)) \<notin> U"
              using Suc.prems \<open>getProcessIndex s u = Some j\<close> by (rule inert_registered)
            then have "quiet U ?sc ?s1"
              by (intro quiet_stop) simp
            then have q1: "quiet U s ?s1"
              by (rule quiet_trans [OF quiet_updConsole])
            with Suc.prems have "inert U ?s1" by (rule inert_quiet)
            from IH [OF this, of need] q1
            have "(prologueLoop now k (need, ?s1) = Inr (need', s') \<longrightarrow> quiet U s s') \<and>
               (prologueLoop now k (need, ?s1) = Inl (e, s') \<longrightarrow> quiet U s s')"
              by (auto intro: quiet_trans [OF q1])
            with True ut \<open>getProcessIndex s u = Some j\<close> prologue late Some show ?thesis
              by (simp add: Let_def)
          qed
        qed
      qed
    qed
  qed
qed

lemma quiet_onPrologueTimer:
  assumes "inert U s"
  shows "onPrologueTimer now s = Inr s' \<Longrightarrow> quiet U s s'"
    and "onPrologueTimer now s = Inl (e, s') \<Longrightarrow> quiet U s s'"
proof -
  let ?s0 = "s\<lparr>prologueTimer := False\<rparr>"
  have q0: "quiet U s ?s0"
    by (rule quiet_subset) simp_all
  with assms have i0: "inert U ?s0" by (rule inert_quiet)
  have t: "quiet U s1 (s1\<lparr>prologueTimer := True\<rparr>)" for s1
    by (rule quiet_subset) simp_all
  show "onPrologueTimer now s = Inr s' \<Longrightarrow> quiet U s s'"
    using quiet_prologueLoop [OF i0, of now "length (prologueProcesses s)" False]
    by (auto simp: onPrologueTimer_def split: sum.splits prod.splits if_splits
        intro: quiet_trans [OF q0] quiet_trans [OF quiet_trans [OF q0] t])
  show "onPrologueTimer now s = Inl (e, s') \<Longrightarrow> quiet U s s'"
    using quiet_prologueLoop [OF i0, of now "length (prologueProcesses s)" False]
    by (auto simp: onPrologueTimer_def split: sum.splits prod.splits if_splits
        intro: quiet_trans [OF q0])
qed

lemma quiet_arrive: "quiet U s (arrive a received s)"
  unfolding arrive_def
  by (rule quiet_updWrapper) (simp_all add: sameFixed_def split: option.splits)

text \<open>What a launch changes: one new wrapper without a socket, and at most one new entry.\<close>

lemma run_shape:
  "run p needDialog env s = s \<or>
   (\<exists>w'. wrappers (run p needDialog env s) = (wrappers s)(nextWrapper s := w') \<and>
         procuuid w' = newUuid env \<and> clientSocket w' = None \<and>
         nextWrapper (run p needDialog env s) = Suc (nextWrapper s) \<and>
         (\<forall>item\<in>set (processes (run p needDialog env s)).
             item \<in> set (processes s) \<or> procWrapper item = nextWrapper s) \<and>
         emitted (run p needDialog env s) = emitted s)"
proof (cases "needDialog \<and> \<not> dlgAccepted env")
  case True
  then show ?thesis by (simp add: run_def)
next
  case False
  then have nd: "(needDialog \<and> \<not> dlgAccepted env) = False"
    by simp
  show ?thesis
  proof (cases "paramRedirected env")
    case False
    define w0 where "w0 =
        \<lparr>procuuid = newUuid env, path = p, redirected = False, state = None,
         serverPort = Some (tcpPort env), clientSocket = None, proc = None, ioSlots = None,
         scans = procScans env\<rparr>"
    have w: "procuuid w0 = newUuid env" "clientSocket w0 = None"
      by (simp_all add: w0_def)
    show ?thesis
    proof (cases "spawnError env")
      case None
      with False have "wrappers (run p needDialog env s) =
            (wrappers s)(nextWrapper s := w0\<lparr>proc := Some Alive\<rparr>)"
          "nextWrapper (run p needDialog env s) = Suc (nextWrapper s)"
          "processes (run p needDialog env s) =
             processes s @ [\<lparr>procWrapper = nextWrapper s, widget = None, kind = RUN\<rparr>]"
          "emitted (run p needDialog env s) = emitted s"
        by (simp_all add: nd run_def Let_def start_def updWrapper_def w0_def RemoteProcessWrapper_def)
      with w show ?thesis
        by (intro disjI2 exI [of _ "w0\<lparr>proc := Some Alive\<rparr>"]) auto
    next
      case (Some msg)
      with False have "wrappers (run p needDialog env s) = (wrappers s)(nextWrapper s := w0)"
          "nextWrapper (run p needDialog env s) = Suc (nextWrapper s)"
          "processes (run p needDialog env s) = processes s"
          "emitted (run p needDialog env s) = emitted s"
        by (simp_all add: nd run_def Let_def start_def updWrapper_def w0_def RemoteProcessWrapper_def)
      with w show ?thesis
        by (intro disjI2 exI [of _ w0]) auto
    qed
  next
    case True
    define a where "a = nextWrapper s"
    define s1c where "s1c =
      (let s1 = s\<lparr>wrappers := (wrappers s)
                   (a := (RemoteProcessWrapper (newUuid env) p (Some (tcpPort env)) True)
                            \<lparr>scans := procScans env\<rparr>),
                 nextWrapper := Suc a\<rparr>;
           s1a = updWrapper a (\<lambda>w. w\<lparr>state := Some STATE_PROLOGUE\<rparr>) s1;
           s1b = s1a\<lparr>prologueProcesses := prologueProcesses s1a @ [(newUuid env, timeNow env)]\<rparr>
       in if \<not> prologueTimer s1b then s1b\<lparr>prologueTimer := True\<rparr> else s1b)"
    define pk where "pk = pickWidget (newUuid env) RUN (consoleReuse env) s1c"
    define i where "i = fst pk"
    define s1d where "s1d = snd pk"
    have "pickWidget (newUuid env) RUN (consoleReuse env) s1c = (i, s1d)"
      by (simp add: pk_def i_def s1d_def)
    note pf = pickWidget_fields [OF this]
    define w0 where "w0 =
        \<lparr>procuuid = newUuid env, path = p, redirected = True, state = Some STATE_PROLOGUE,
         serverPort = Some (tcpPort env), clientSocket = None, proc = None, ioSlots = None,
         scans = procScans env\<rparr>"
    have c: "processes s1c = processes s" "emitted s1c = emitted s"
      "nextWrapper s1c = Suc (nextWrapper s)"
      "wrappers s1c = (wrappers s)(nextWrapper s := w0)"
      by (simp_all add: s1c_def Let_def a_def w0_def updWrapper_def RemoteProcessWrapper_def)
    define s3 where "s3 =
      (let s1e = updConsole i (appendMsg (IDEMessage (''Starting '' @ p @ ''...''))) s1d;
           s1f = updWrapper a (\<lambda>w. w\<lparr>ioSlots := Some i\<rparr>) s1e
       in s1f\<lparr>processes := processes s1f @ [\<lparr>procWrapper = a, widget = Some i, kind = RUN\<rparr>]\<rparr>)"
    have s3: "processes s3 = processes s @ [\<lparr>procWrapper = a, widget = Some i, kind = RUN\<rparr>]"
      "emitted s3 = emitted s" "nextWrapper s3 = Suc (nextWrapper s)"
      "wrappers s3 = (wrappers s)(nextWrapper s := w0\<lparr>ioSlots := Some i\<rparr>)"
      by (simp_all add: s3_def Let_def pf c updWrapper_def a_def)
    have r: "run p needDialog env s =
       (case spawnError env of
          None \<Rightarrow> updWrapper a (\<lambda>w. w\<lparr>proc := Some Alive\<rparr>) s3
        | Some msg \<Rightarrow>
            (updConsole i (appendMsg (IDEMessage (''Failed to start: '' @ msg))) s3)
              \<lparr>processes := butlast (processes
                 (updConsole i (appendMsg (IDEMessage (''Failed to start: '' @ msg))) s3))\<rparr>)"
      using True
      by (simp add: nd run_def Let_def start_def split_beta s3_def s1d_def i_def pk_def
          s1c_def a_def split: option.splits)
    have w: "procuuid w0 = newUuid env" "clientSocket w0 = None"
      by (simp_all add: w0_def)
    show ?thesis
    proof (cases "spawnError env")
      case None
      with r have "run p needDialog env s = updWrapper a (\<lambda>w. w\<lparr>proc := Some Alive\<rparr>) s3"
        by simp
      then have "wrappers (run p needDialog env s) =
            (wrappers s)(nextWrapper s := w0\<lparr>ioSlots := Some i, proc := Some Alive\<rparr>)"
          "nextWrapper (run p needDialog env s) = Suc (nextWrapper s)"
          "processes (run p needDialog env s) =
             processes s @ [\<lparr>procWrapper = a, widget = Some i, kind = RUN\<rparr>]"
          "emitted (run p needDialog env s) = emitted s"
        by (simp_all add: s3 updWrapper_def a_def)
      with w show ?thesis
        by (intro disjI2 exI [of _ "w0\<lparr>ioSlots := Some i, proc := Some Alive\<rparr>"])
          (auto simp: a_def)
    next
      case (Some msg)
      with r have "wrappers (run p needDialog env s) =
            (wrappers s)(nextWrapper s := w0\<lparr>ioSlots := Some i\<rparr>)"
          "nextWrapper (run p needDialog env s) = Suc (nextWrapper s)"
          "processes (run p needDialog env s) = processes s"
          "emitted (run p needDialog env s) = emitted s"
        by (simp_all add: s3)
      with w show ?thesis
        by (intro disjI2 exI [of _ "w0\<lparr>ioSlots := Some i\<rparr>"]) auto
    qed
  qed
qed

lemma inert_run:
  assumes "inert U s" and "newUuid env \<notin> U"
  shows "inert U (run p needDialog env s) \<and>
         finishedFor U (run p needDialog env s) = finishedFor U s"
proof -
  let ?s' = "run p needDialog env s"
  from run_shape [of p needDialog env s] show ?thesis
  proof
    assume "?s' = s"
    with assms(1) show ?thesis by simp
  next
    assume "\<exists>w'. wrappers ?s' = (wrappers s)(nextWrapper s := w') \<and>
         procuuid w' = newUuid env \<and> clientSocket w' = None \<and>
         nextWrapper ?s' = Suc (nextWrapper s) \<and>
         (\<forall>item\<in>set (processes ?s'). item \<in> set (processes s) \<or> procWrapper item = nextWrapper s) \<and>
         emitted ?s' = emitted s"
    then obtain w' where w: "wrappers ?s' = (wrappers s)(nextWrapper s := w')"
      "procuuid w' = newUuid env" "clientSocket w' = None"
      "nextWrapper ?s' = Suc (nextWrapper s)"
      "\<forall>item\<in>set (processes ?s'). item \<in> set (processes s) \<or> procWrapper item = nextWrapper s"
      "emitted ?s' = emitted s"
      by blast
    have 1: "\<forall>item\<in>set (processes ?s'). itemUuid ?s' item \<notin> U"
    proof
      fix item assume "item \<in> set (processes ?s')"
      with w(5) have "item \<in> set (processes s) \<or> procWrapper item = nextWrapper s"
        by blast
      with assms w(1,2) show "itemUuid ?s' item \<notin> U"
        by (auto simp: itemUuid_def inert_def)
    qed
    have 2: "\<forall>a<nextWrapper ?s'. procuuid (wrappers ?s' a) \<in> U \<longrightarrow>
        clientSocket (wrappers ?s' a) = None"
      using assms w(1,2,3,4) by (auto simp: inert_def less_Suc_eq)
    from 1 2 w(6) show ?thesis
      by (simp add: inert_def finishedFor_def)
  qed
qed

lemma emitted_fold_stop:
  "emitted (fold stop as s) =
     emitted s @ map (\<lambda>a. SigFinished (procuuid (wrappers s a)) KILLED) as"
proof (induction as arbitrary: s)
  case Nil
  show ?case by simp
next
  case (Cons a as)
  have "procuuid (wrappers (stop a s) b) = procuuid (wrappers s b)" for b
    using frame_stop [of s a] by (rule frame_procuuid)
  with Cons.IH [of "stop a s"] show ?case
    by (simp add: emitted_stop)
qed

lemma noRedirectedFrom_length: "noRedirectedFrom (length (processes s)) s"
  by (auto simp: noRedirectedFrom_def)

lemma getDetachedCount_zero: "noRedirectedFrom 0 s \<Longrightarrow> getDetachedCount s = 0"
  by (auto simp: getDetachedCount_filter noRedirectedFrom_def filter_empty_conv in_set_conv_nth)

text \<open>
  \<^verbatim>\<open>killAll\<close> comes back, whatever the event loop would do: after the first loop no
  redirected entry is left, so the second loop does not run.
\<close>

lemma killAll_stops:
  "\<exists>as. killAll processEvents s = Some (Inr (fold stop as s)) \<and>
        getDetachedCount (fold stop as s) = 0 \<and>
        (\<forall>a\<in>set as. \<exists>item\<in>set (processes s). itemRedirected s item \<and> procWrapper item = a) \<and>
        (\<forall>item\<in>set (processes s). itemRedirected s item \<longrightarrow>
            (\<exists>a\<in>set as. procuuid (wrappers s a) = itemUuid s item))"
proof -
  from killAllLoop_stops [OF order_refl noRedirectedFrom_length, of s]
  obtain as where as: "killAllLoop (length (processes s)) s = Inr (fold stop as s)"
    "noRedirectedFrom 0 (fold stop as s)"
    "\<forall>a\<in>set as. \<exists>item\<in>set (processes s). itemRedirected s item \<and> procWrapper item = a"
    "\<forall>item\<in>set (processes s). itemRedirected s item \<longrightarrow>
            (\<exists>a\<in>set as. procuuid (wrappers s a) = itemUuid s item)"
    by blast
  from as(2) have z: "getDetachedCount (fold stop as s) = 0"
    by (rule getDetachedCount_zero)
  then have "drainLoop processEvents (fold stop as s) = Some (fold stop as s)"
    by (subst drainLoop.simps) simp
  with as(1) have "killAll processEvents s = Some (Inr (fold stop as s))"
    by (simp add: killAll_def)
  with z as(3,4) show ?thesis by blast
qed

lemma quiet_killAll:
  assumes "inert U s"
  shows "\<exists>s'. killAll processEvents s = Some (Inr s') \<and> quiet U s s'"
proof -
  from killAll_stops [of processEvents s]
  obtain as where as: "killAll processEvents s = Some (Inr (fold stop as s))"
    "\<forall>a\<in>set as. \<exists>item\<in>set (processes s). itemRedirected s item \<and> procWrapper item = a"
    by blast
  from as(2) assms have "\<forall>a\<in>set as. procuuid (wrappers s a) \<notin> U"
    by (auto simp: inert_def itemUuid_def)
  then have "quiet U s (fold stop as s)"
    by (rule quiet_fold_stop)
  with as(1) show ?thesis by blast
qed

lemma inert_fire:
  assumes "inert U s" and "admissible U ev s"
  shows "inert U (fire ev s) \<and> finishedFor U (fire ev s) = finishedFor U s"
proof -
  have q: "inert U s' \<and> finishedFor U s' = finishedFor U s" if "quiet U s s'" for s'
    using that assms(1) by (auto intro: inert_quiet simp: quiet_def)
  have qs: "inert U s' \<and> finishedFor U s' = finishedFor U s" if "quietButState U s s'" for s'
    using that assms(1) by (auto intro: inert_quietButState simp: quietButState_def)
  show ?thesis
  proof (cases ev)
    case (EvRun p needDialog env)
    with assms show ?thesis by (simp add: inert_run)
  next
    case (EvKill u)
    from assms(1) have "quiet U s (kill_uuid u s)" by (rule quiet_kill_uuid)
    from q [OF this] EvKill show ?thesis by simp
  next
    case EvKillAll
    from quiet_killAll [OF assms(1), of id] obtain s' where
      k: "killAll id s = Some (Inr s')" and "quiet U s s'" by blast
    from q [OF this(2)] k EvKillAll show ?thesis by simp
  next
    case EvWaitTimer
    show ?thesis
    proof (cases "waitTimer s")
      case False
      with EvWaitTimer assms(1) show ?thesis by simp
    next
      case True
      show ?thesis
      proof (cases "onWaitTimer s")
        case (Inl es)
        then obtain e s' where r: "onWaitTimer s = Inl (e, s')" by (cases es) auto
        from q [OF quiet_onWaitTimer(2) [OF r]] r True EvWaitTimer show ?thesis by simp
      next
        case (Inr s')
        from q [OF quiet_onWaitTimer(1) [OF Inr]] Inr True EvWaitTimer show ?thesis by simp
      qed
    qed
  next
    case (EvPrologueTimer now)
    show ?thesis
    proof (cases "prologueTimer s")
      case False
      with EvPrologueTimer assms(1) show ?thesis by simp
    next
      case True
      show ?thesis
      proof (cases "onPrologueTimer now s")
        case (Inl es)
        then obtain e s' where r: "onPrologueTimer now s = Inl (e, s')" by (cases es) auto
        from q [OF quiet_onPrologueTimer(2) [OF assms(1) r]] r True EvPrologueTimer
        show ?thesis by simp
      next
        case (Inr s')
        from q [OF quiet_onPrologueTimer(1) [OF assms(1) Inr]] Inr True EvPrologueTimer
        show ?thesis by simp
      qed
    qed
  next
    case (EvNewConnection sock)
    show ?thesis
    proof (cases "waitForHandshake sock s")
      case (Inl x)
      then obtain e so s' where r: "waitForHandshake sock s = Inl (e, so, s')"
        by (cases x) auto
      from qs [OF quietButState_handshake(2) [OF assms(1) r]] r EvNewConnection
      show ?thesis by simp
    next
      case (Inr x)
      then obtain r so s' where r: "waitForHandshake sock s = Inr (r, so, s')"
        by (cases x) auto
      from qs [OF quietButState_handshake(1) [OF assms(1) r]] r EvNewConnection
      show ?thesis by simp
    qed
  next
    case (EvReadyRead a received)
    show ?thesis
    proof (cases "slotsConnected a s")
      case False
      with EvReadyRead assms(1) show ?thesis by simp
    next
      case True
      with assms(1) have n: "procuuid (wrappers s a) \<notin> U"
        by (auto simp: slotsConnected_def inert_def split: option.splits)
      let ?s0 = "arrive a received s"
      have q0: "quiet U s ?s0" by (rule quiet_arrive)
      with n have n0: "procuuid (wrappers ?s0 a) \<notin> U"
        by (simp add: quiet_procuuid)
      show ?thesis
      proof (cases "parseClientLine a ?s0")
        case (Inl es)
        then obtain e s' where r: "parseClientLine a ?s0 = Inl (e, s')" by (cases es) auto
        with quiet_parseClientLine [OF n0, of s' e] have "quiet U ?s0 s'" by simp
        with q0 have "quiet U s s'" by (rule quiet_trans)
        from q [OF this] EvReadyRead True r show ?thesis by simp
      next
        case (Inr s')
        with quiet_parseClientLine [OF n0, of s'] have "quiet U ?s0 s'" by simp
        with q0 have "quiet U s s'" by (rule quiet_trans)
        from q [OF this] EvReadyRead True Inr show ?thesis by simp
      qed
    qed
  next
    case (EvDisconnected a)
    show ?thesis
    proof (cases "slotsConnected a s")
      case False
      with EvDisconnected assms(1) show ?thesis by simp
    next
      case True
      with assms(1) have "procuuid (wrappers s a) \<notin> U"
        by (auto simp: slotsConnected_def inert_def split: option.splits)
      then have "quiet U s (disconnected a s)" by (rule quiet_disconnected)
      from q [OF this] EvDisconnected True show ?thesis by simp
    qed
  qed
qed

lemma inert_fires:
  "inert U s \<Longrightarrow> admissibleRun U es s \<Longrightarrow>
   inert U (fires es s) \<and> finishedFor U (fires es s) = finishedFor U s"
proof (induction es arbitrary: s)
  case Nil
  then show ?case by simp
next
  case (Cons ev es)
  from Cons.prems have "inert U (fire ev s) \<and> finishedFor U (fire ev s) = finishedFor U s"
    by (simp add: inert_fire)
  with Cons.IH [of "fire ev s"] Cons.prems(2) show ?case
    by simp
qed

section \<open>C6: killAll\<close>

text \<open>
  Two facts that \<^verbatim>\<open>uuid.uuid1()\<close> and \<^verbatim>\<open>run\<close> maintain: the wrappers created so far have
  different correlation ids, and every entry of the registry refers to one of them.
\<close>

definition wellFormed :: "sys \<Rightarrow> bool" where
  "wellFormed s \<longleftrightarrow>
     distinct (map (\<lambda>a. procuuid (wrappers s a)) [0..<nextWrapper s]) \<and>
     list_all (\<lambda>item. procWrapper item < nextWrapper s) (processes s)"

text \<open>The correlation ids of the redirected entries of the registry.\<close>

definition redirectedIds :: "sys \<Rightarrow> procuuid set" where
  "redirectedIds s = set (map (itemUuid s) (filter (itemRedirected s) (processes s)))"

lemma wellFormed_same_address:
  assumes "wellFormed s" and "a < nextWrapper s" and "b < nextWrapper s"
    and "procuuid (wrappers s a) = procuuid (wrappers s b)"
  shows "a = b"
proof -
  from assms(1) have "inj_on (\<lambda>a. procuuid (wrappers s a)) (set [0..<nextWrapper s])"
    by (simp add: wellFormed_def distinct_map)
  with assms(2-4) show ?thesis
    by (auto dest: inj_onD)
qed

lemma stop_socket:
  "b = a \<or> clientSocket (wrappers s b) = None \<Longrightarrow> clientSocket (wrappers (stop a s) b) = None"
proof -
  assume h: "b = a \<or> clientSocket (wrappers s b) = None"
  let ?s2 = "updWrapper a kill (updWrapper a disconnectSocket s)"
  let ?s3 = "?s2\<lparr>emitted := emitted ?s2 @ [SigFinished (procuuid (wrappers ?s2 a)) KILLED]\<rparr>"
  from h have "clientSocket (wrappers ?s3 b) = None"
    by (auto simp: wrappers_updWrapper)
  moreover have "quiet UNIV ?s3 (onProcessFinished (procuuid (wrappers ?s2 a)) KILLED ?s3)"
    by (rule quiet_onProcessFinished)
  ultimately have "clientSocket
      (wrappers (onProcessFinished (procuuid (wrappers ?s2 a)) KILLED ?s3) b) = None"
    by (simp add: quiet_def)
  then show ?thesis
    by (simp add: stop_def emitFinished_def Let_def)
qed

lemma fold_stop_socket:
  "a \<in> set as \<or> clientSocket (wrappers s a) = None \<Longrightarrow>
   clientSocket (wrappers (fold stop as s) a) = None"
proof (induction as arbitrary: s)
  case Nil
  then show ?case by simp
next
  case (Cons b as)
  show ?case
  proof (cases "a \<in> set as")
    case True
    with Cons.IH [of "stop b s"] show ?thesis by simp
  next
    case False
    with Cons.prems have "a = b \<or> clientSocket (wrappers s a) = None" by auto
    then have "clientSocket (wrappers (stop b s) a) = None"
      by (rule stop_socket)
    with Cons.IH [of "stop b s"] show ?thesis by simp
  qed
qed

lemma nextWrapper_onProcessFinished [simp]:
  "nextWrapper (onProcessFinished u c s) = nextWrapper s"
  by (simp add: onProcessFinished_def Let_def split: option.splits)

lemma nextWrapper_stop [simp]: "nextWrapper (stop a s) = nextWrapper s"
  by (simp add: stop_def emitFinished_def Let_def)

lemma nextWrapper_fold_stop [simp]: "nextWrapper (fold stop as s) = nextWrapper s"
  by (induction as arbitrary: s) simp_all

lemma killAll_inert:
  assumes wf: "wellFormed s"
    and as: "\<forall>a\<in>set as. \<exists>item\<in>set (processes s). itemRedirected s item \<and> procWrapper item = a"
      "\<forall>item\<in>set (processes s). itemRedirected s item \<longrightarrow>
            (\<exists>a\<in>set as. procuuid (wrappers s a) = itemUuid s item)"
    and nr: "getDetachedCount (fold stop as s) = 0"
  shows "inert (redirectedIds s) (fold stop as s)"
proof -
  let ?s' = "fold stop as s"
  have f: "frame s ?s'" by (rule frame_fold_stop)
  have valid: "procWrapper item < nextWrapper s" if "item \<in> set (processes s)" for item
    using wf that by (simp add: wellFormed_def list_all_iff)
  have 1: "itemUuid ?s' item \<notin> redirectedIds s" if i: "item \<in> set (processes ?s')" for item
  proof
    assume "itemUuid ?s' item \<in> redirectedIds s"
    then obtain y where y: "y \<in> set (processes s)" "itemRedirected s y"
      "itemUuid s y = itemUuid s item"
      by (auto simp: redirectedIds_def frame_itemUuid [OF f])
    from i set_processes_fold_stop [of as s] have "item \<in> set (processes s)" by blast
    with y(1,3) wf have "procWrapper y = procWrapper item"
      by (auto intro: wellFormed_same_address valid simp: itemUuid_def)
    with y(2) have "itemRedirected s item"
      by (simp add: itemRedirected_def)
    then have "itemRedirected ?s' item"
      by (simp add: frame_itemRedirected [OF f])
    with i have "filter (itemRedirected ?s') (processes ?s') \<noteq> []"
      by (auto simp: filter_empty_conv)
    with nr show False
      by (simp add: getDetachedCount_filter)
  qed
  have 2: "clientSocket (wrappers ?s' a) = None"
    if a: "a < nextWrapper ?s'" "procuuid (wrappers ?s' a) \<in> redirectedIds s" for a
  proof -
    from a(2) obtain y where y: "y \<in> set (processes s)" "itemRedirected s y"
      "itemUuid s y = procuuid (wrappers s a)"
      by (auto simp: redirectedIds_def frame_procuuid [OF f])
    with as(2) obtain b where b: "b \<in> set as" "procuuid (wrappers s b) = itemUuid s y"
      by blast
    with as(1) obtain x where "x \<in> set (processes s)" "procWrapper x = b"
      by blast
    then have "b < nextWrapper s" using valid by blast
    with wf a(1) b(2) y(3) have "b = a"
      by (auto intro: wellFormed_same_address)
    with b(1) show ?thesis
      by (simp add: fold_stop_socket)
  qed
  from 1 2 show ?thesis
    by (simp add: inert_def)
qed

text \<open>A running redirected launch and a launch that is not redirected.\<close>

definition sysTwo :: sys where
  "sysTwo = run ''other.py'' False launchDetached sysRunning"

lemma sysTwo_fields:
  "nextWrapper sysTwo = 2"
  "processes sysTwo = [\<lparr>procWrapper = 0, widget = Some 0, kind = RUN\<rparr>,
                       \<lparr>procWrapper = 1, widget = None, kind = RUN\<rparr>]"
  "procuuid (wrappers sysTwo 0) = ''c1''" "procuuid (wrappers sysTwo (Suc 0)) = ''d1''"
  "redirected (wrappers sysTwo 0) = True" "redirected (wrappers sysTwo (Suc 0)) = False"
  by (simp_all add: sysTwo_def launchDetached_def eval_defs eval_defs2 parseClientLine.simps)

lemma sysTwo_wellFormed: "wellFormed sysTwo"
  by (simp add: wellFormed_def sysTwo_fields upt_rec [of 0] upt_rec [of 1] upt_rec [of "Suc 0"]
      eval_nat_numeral)

lemma sysTwo_redirectedIds: "redirectedIds sysTwo = {''c1''}"
  by (simp add: redirectedIds_def sysTwo_fields itemUuid_def itemRedirected_def)

text \<open>
  C6: \<^verbatim>\<open>killAll()\<close> returns, whatever the event loop does while it waits, and when it
  returns the count of redirected entries in the registry is 0; a
  \<^verbatim>\<open>finished(id, KILLED)\<close> event has been emitted for every redirected entry. If the
  wrappers have different correlation ids and the registry refers to wrappers that
  exist, then no run of later events (launches with ids other than those of the stopped
  entries, every child connecting once) emits a finished event for an id of a redirected
  entry that was in the registry at the call.
\<close>

theorem C6_killAll_returns_with_no_redirected_entry:
  "\<exists>s'. killAll processEvents s = Some (Inr s')
      \<and> getDetachedCount s' = 0
      \<and> (\<forall>item\<in>set (processes s). itemRedirected s item \<longrightarrow>
            SigFinished (itemUuid s item) KILLED \<in> set (emitted s'))
      \<and> (wellFormed s \<longrightarrow>
            (\<forall>es. admissibleRun (redirectedIds s) es s' \<longrightarrow>
               finishedFor (redirectedIds s) (fires es s') = finishedFor (redirectedIds s) s'))"
proof -
  from killAll_stops [of processEvents s]
  obtain as where as: "killAll processEvents s = Some (Inr (fold stop as s))"
    "getDetachedCount (fold stop as s) = 0"
    "\<forall>a\<in>set as. \<exists>item\<in>set (processes s). itemRedirected s item \<and> procWrapper item = a"
    "\<forall>item\<in>set (processes s). itemRedirected s item \<longrightarrow>
            (\<exists>a\<in>set as. procuuid (wrappers s a) = itemUuid s item)"
    by blast
  let ?s' = "fold stop as s"
  have st: "\<forall>item\<in>set (processes s). itemRedirected s item \<longrightarrow>
            SigFinished (itemUuid s item) KILLED \<in> set (emitted ?s')"
  proof (intro ballI impI)
    fix item assume "item \<in> set (processes s)" "itemRedirected s item"
    with as(4) obtain a where a: "a \<in> set as" "procuuid (wrappers s a) = itemUuid s item"
      by blast
    from a(1) have "SigFinished (procuuid (wrappers s a)) KILLED \<in>
        (\<lambda>a. SigFinished (procuuid (wrappers s a)) KILLED) ` set as"
      by (rule imageI)
    with a(2) show "SigFinished (itemUuid s item) KILLED \<in> set (emitted ?s')"
      by (simp add: emitted_fold_stop)
  qed
  have later: "\<forall>es. admissibleRun (redirectedIds s) es ?s' \<longrightarrow>
               finishedFor (redirectedIds s) (fires es ?s') = finishedFor (redirectedIds s) ?s'"
    if "wellFormed s"
  proof -
    from that as(3,4,2) have "inert (redirectedIds s) ?s'"
      by (rule killAll_inert)
    then show ?thesis
      by (simp add: inert_fires)
  qed
  from as(1,2) st later show ?thesis
    by blast
qed

theorem C6_witness:
  "wellFormed sysTwo
   \<and> (\<exists>s'. killAll id sysTwo = Some (Inr s') \<and> getDetachedCount s' = 0 \<and>
          SigFinished ''c1'' KILLED \<in> set (emitted s') \<and>
          admissibleRun (redirectedIds sysTwo)
            [EvKill ''c1'', EvDisconnected 0, EvPrologueTimer (\<lambda>index. 20), EvKillAll,
             EvRun ''third.py'' False (launchRedirected\<lparr>newUuid := ''c2''\<rparr>)] s' \<and>
          finishedFor {''c1''}
            (fires [EvKill ''c1'', EvDisconnected 0, EvPrologueTimer (\<lambda>index. 20), EvKillAll,
                    EvRun ''third.py'' False (launchRedirected\<lparr>newUuid := ''c2''\<rparr>)] s') =
          finishedFor {''c1''} s')"
proof -
  let ?es = "[EvKill ''c1'', EvDisconnected 0, EvPrologueTimer (\<lambda>index. 20), EvKillAll,
         EvRun ''third.py'' False (launchRedirected\<lparr>newUuid := ''c2''\<rparr>)]"
  have l: "admissibleRun (redirectedIds sysTwo) ?es s" for s
    by (simp add: sysTwo_redirectedIds launchRedirected_def)
  from C6_killAll_returns_with_no_redirected_entry [of id sysTwo]
  obtain s' where s': "killAll id sysTwo = Some (Inr s')" "getDetachedCount s' = 0"
    "\<forall>item\<in>set (processes sysTwo). itemRedirected sysTwo item \<longrightarrow>
            SigFinished (itemUuid sysTwo item) KILLED \<in> set (emitted s')"
    "wellFormed sysTwo \<longrightarrow>
            (\<forall>es. admissibleRun (redirectedIds sysTwo) es s' \<longrightarrow>
               finishedFor (redirectedIds sysTwo) (fires es s') = finishedFor (redirectedIds sysTwo) s')"
    by blast
  from s'(3) have "SigFinished ''c1'' KILLED \<in> set (emitted s')"
    by (simp add: sysTwo_fields itemUuid_def itemRedirected_def)
  moreover from s'(4) sysTwo_wellFormed l [of s']
  have "finishedFor {''c1''} (fires ?es s') = finishedFor {''c1''} s'"
    by (simp only: sysTwo_redirectedIds)
  ultimately show ?thesis
    using s'(1,2) sysTwo_wellFormed l [of s'] by blast
qed

section \<open>Steps that only add\<close>

text \<open>
  A step \<open>grows\<close> when it keeps the fixed fields of the wrappers, adds no entry to the
  registry, and only appends to the emitted signals and to the content of the consoles.
\<close>

definition grows :: "sys \<Rightarrow> sys \<Rightarrow> bool" where
  "grows s s' \<longleftrightarrow>
     frame s s' \<and> set (processes s') \<subseteq> set (processes s) \<and>
     (\<exists>ys. emitted s' = emitted s @ ys) \<and>
     length (ioConsoles s') = length (ioConsoles s) \<and>
     (\<forall>i. \<exists>ys. content (ioConsoles s' ! i) = content (ioConsoles s ! i) @ ys)"

lemma grows_refl [simp]: "grows s s"
  by (simp add: grows_def)

lemma grows_trans: "grows s s' \<Longrightarrow> grows s' s'' \<Longrightarrow> grows s s''"
  unfolding grows_def
proof (intro conjI)
  assume a: "frame s s' \<and> set (processes s') \<subseteq> set (processes s) \<and>
     (\<exists>ys. emitted s' = emitted s @ ys) \<and>
     length (ioConsoles s') = length (ioConsoles s) \<and>
     (\<forall>i. \<exists>ys. content (ioConsoles s' ! i) = content (ioConsoles s ! i) @ ys)"
    and b: "frame s' s'' \<and> set (processes s'') \<subseteq> set (processes s') \<and>
     (\<exists>ys. emitted s'' = emitted s' @ ys) \<and>
     length (ioConsoles s'') = length (ioConsoles s') \<and>
     (\<forall>i. \<exists>ys. content (ioConsoles s'' ! i) = content (ioConsoles s' ! i) @ ys)"
  from a b show "frame s s''" by (blast intro: frame_trans)
  from a b show "set (processes s'') \<subseteq> set (processes s)" by blast
  from a b show "\<exists>ys. emitted s'' = emitted s @ ys" by auto
  from a b show "length (ioConsoles s'') = length (ioConsoles s)" by simp
  show "\<forall>i. \<exists>ys. content (ioConsoles s'' ! i) = content (ioConsoles s ! i) @ ys"
  proof
    fix i
    from a obtain ys where "content (ioConsoles s' ! i) = content (ioConsoles s ! i) @ ys"
      by blast
    moreover from b obtain zs where "content (ioConsoles s'' ! i) = content (ioConsoles s' ! i) @ zs"
      by blast
    ultimately show "\<exists>ys. content (ioConsoles s'' ! i) = content (ioConsoles s ! i) @ ys"
      by simp
  qed
qed

lemma grows_updConsole: "grows s (updConsole wd (appendMsg m) s)"
proof -
  have "\<exists>ys. content ((ioConsoles s)[wd := appendMsg m (ioConsoles s ! wd)] ! i) =
      content (ioConsoles s ! i) @ ys" for i
  proof (cases "wd < length (ioConsoles s)")
    case True
    then show ?thesis
      by (cases "i = wd") (simp_all add: appendMsg_def)
  next
    case False
    then show ?thesis
      by (simp add: list_update_beyond)
  qed
  then show ?thesis
    by (simp add: grows_def frame_def updConsole_def)
qed

lemma grows_updWrapper: "(\<And>w. sameFixed w (f w)) \<Longrightarrow> grows s (updWrapper a f s)"
  by (simp add: grows_def frame_updWrapper)

lemma grows_other_fields:
  "wrappers s' = wrappers s \<Longrightarrow> set (processes s') \<subseteq> set (processes s) \<Longrightarrow>
   emitted s' = emitted s @ ys \<Longrightarrow>
   ioConsoles s' = ioConsoles s \<Longrightarrow> grows s s'"
  by (simp add: grows_def frame_def)

lemma grows_finishConsole: "grows s (finishConsole b wd u c s)"
proof -
  let ?s1 = "updConsole wd (appendMsg ScriptFinished) s"
  have g1: "grows s ?s1" by (rule grows_updConsole)
  have g2: "grows ?s1 (updWrapper b wait ?s1)"
    by (rule grows_updWrapper) simp
  have g3: "grows s2 ((updConsole wd (appendMsg (IDEMessage msg)) s2)
      \<lparr>tooltips := tooltips (updConsole wd (appendMsg (IDEMessage msg)) s2) @ [(u, tt)]\<rparr>)"
    for s2 msg tt
  proof (rule grows_trans [OF grows_updConsole])
    show "grows (updConsole wd (appendMsg (IDEMessage msg)) s2)
      ((updConsole wd (appendMsg (IDEMessage msg)) s2)
      \<lparr>tooltips := tooltips (updConsole wd (appendMsg (IDEMessage msg)) s2) @ [(u, tt)]\<rparr>)"
      by (rule grows_other_fields [where ys = "[]"]) simp_all
  qed
  show ?thesis
  proof (cases "c = KILLED \<or> c = DISCONNECTED")
    case True
    then show ?thesis
      using grows_trans [OF g1 g3]
      by (auto simp: finishConsole_def Let_def)
  next
    case False
    then show ?thesis
      using grows_trans [OF grows_trans [OF g1 g2] g3]
      by (simp add: finishConsole_def Let_def)
  qed
qed

lemma grows_onProcessFinished: "grows s (onProcessFinished u c s)"
proof (cases "getProcessIndex s u")
  case None
  then show ?thesis by (simp add: onProcessFinished_def)
next
  case (Some j)
  define s1 where "s1 = (if itemRedirected s (processes s ! j) then
      (case widget (processes s ! j) of None \<Rightarrow> s
       | Some wd \<Rightarrow> finishConsole (procWrapper (processes s ! j)) wd u c s) else s)"
  have "grows s s1"
    by (simp add: s1_def grows_finishConsole split: option.splits)
  moreover have "grows s1 (s1\<lparr>processes := delIndex j (processes s1)\<rparr>)"
    using set_delIndex_subset [of j "processes s1"]
    by (intro grows_other_fields [where ys = "[]"]) simp_all
  ultimately have "grows s (s1\<lparr>processes := delIndex j (processes s1)\<rparr>)"
    by (rule grows_trans)
  with Some show ?thesis
    by (simp add: onProcessFinished_def Let_def s1_def)
qed

lemma grows_emitFinished: "grows s (emitFinished a c s)"
proof -
  let ?s0 = "s\<lparr>emitted := emitted s @ [SigFinished (procuuid (wrappers s a)) c]\<rparr>"
  have "grows s ?s0"
    by (rule grows_other_fields) simp_all
  then show ?thesis
    unfolding emitFinished_def Let_def
    by (rule grows_trans) (rule grows_onProcessFinished)
qed

lemma grows_stop: "grows s (stop a s)"
proof -
  have "grows s (updWrapper a disconnectSocket s)"
    by (rule grows_updWrapper) simp
  moreover have "grows (updWrapper a disconnectSocket s)
      (updWrapper a kill (updWrapper a disconnectSocket s))"
    by (rule grows_updWrapper) simp
  ultimately have "grows s (updWrapper a kill (updWrapper a disconnectSocket s))"
    by (rule grows_trans)
  then show ?thesis
    unfolding stop_def
    by (rule grows_trans) (rule grows_emitFinished)
qed

section \<open>C8: the prologue timeout\<close>

lemma delIndex_Cons [simp]:
  "delIndex 0 (x # xs) = xs" "delIndex (Suc n) (x # xs) = x # delIndex n xs"
  by (simp_all add: delIndex_def)

lemma findIndex_find: "findIndex P xs = Some j \<Longrightarrow> List.find P xs = Some (xs ! j)"
  by (induction xs arbitrary: j) (auto split: if_splits)

lemma find_findIndex: "List.find P xs = Some x \<Longrightarrow> \<exists>j. findIndex P xs = Some j \<and> xs ! j = x"
  by (induction xs) (auto split: if_splits)

lemma find_delIndex_other:
  "j < length xs \<Longrightarrow> \<not> P (xs ! j) \<Longrightarrow> List.find P (delIndex j xs) = List.find P xs"
proof (induction xs arbitrary: j)
  case Nil
  then show ?case by simp
next
  case (Cons x xs)
  then show ?case by (cases j) auto
qed

lemma distinct_map_delIndex: "distinct (map f xs) \<Longrightarrow> distinct (map f (delIndex j xs))"
proof (induction xs arbitrary: j)
  case Nil
  then show ?case by (simp add: delIndex_def)
next
  case (Cons x xs)
  show ?case
  proof (cases j)
    case 0
    with Cons.prems show ?thesis by simp
  next
    case (Suc n)
    from Cons.prems have "f x \<notin> f ` set (delIndex n xs)"
      using set_delIndex_subset [of n xs] by auto
    with Cons Suc show ?thesis by simp
  qed
qed

lemma distinct_delIndex_other:
  "distinct (map f xs) \<Longrightarrow> j < length xs \<Longrightarrow> x \<in> set (delIndex j xs) \<Longrightarrow> f x \<noteq> f (xs ! j)"
proof (induction xs arbitrary: j)
  case Nil
  then show ?case by simp
next
  case (Cons y ys)
  show ?case
  proof (cases j)
    case 0
    with Cons.prems have "x \<in> set ys" "f y \<notin> f ` set ys" by simp_all
    then have "f x \<noteq> f y" by (metis imageI)
    with 0 show ?thesis by simp
  next
    case (Suc n)
    with Cons.prems have "x = y \<or> x \<in> set (delIndex n ys)" by simp
    then show ?thesis
    proof
      assume "x = y"
      with Cons.prems Suc show ?thesis by auto
    next
      assume "x \<in> set (delIndex n ys)"
      with Cons.IH [of n] Cons.prems Suc show ?thesis by simp
    qed
  qed
qed

lemma prologueProcesses_stop [simp]: "prologueProcesses (stop a s) = prologueProcesses s"
  by (simp add: stop_def emitFinished_def onProcessFinished_def finishConsole_def Let_def
      split: option.splits)

lemma length_ioConsoles_grows: "grows s s' \<Longrightarrow> length (ioConsoles s') = length (ioConsoles s)"
  by (simp add: grows_def)

text \<open>
  What the prologue timer has done since the state \<open>s0\<close> for the entry with the id \<open>u\<close>
  and the console \<open>wd\<close> when it has stopped the entry on a timeout: the event and the
  message are new, and no entry has the id any more.
\<close>

definition timedOutSince :: "sys \<Rightarrow> procuuid \<Rightarrow> nat \<Rightarrow> sys \<Rightarrow> bool" where
  "timedOutSince s0 u wd s \<longleftrightarrow>
     (\<exists>es. emitted s = emitted s0 @ es \<and> SigFinished u KILLED \<in> set es) \<and>
     (\<exists>ms. content (ioConsoles s ! wd) = content (ioConsoles s0 ! wd) @ ms \<and>
           IDEMessage timeoutMessage \<in> set ms) \<and>
     getProcessIndex s u = None"

text \<open>Every entry whose wrapper is in the Prologue state has a console.\<close>

definition prologueHaveWidgets :: "sys \<Rightarrow> bool" where
  "prologueHaveWidgets s \<longleftrightarrow>
     (\<forall>item\<in>set (processes s).
        state (wrappers s (procWrapper item)) = Some STATE_PROLOGUE \<longrightarrow> widget item \<noteq> None)"

lemma timedOutSince_grows: "timedOutSince s0 u wd s \<Longrightarrow> grows s s' \<Longrightarrow> timedOutSince s0 u wd s'"
proof -
  assume t: "timedOutSince s0 u wd s" and g: "grows s s'"
  from g have f: "frame s s'" by (simp add: grows_def)
  from g obtain ys where "emitted s' = emitted s @ ys" by (auto simp: grows_def)
  moreover from t obtain es where "emitted s = emitted s0 @ es" "SigFinished u KILLED \<in> set es"
    by (auto simp: timedOutSince_def)
  ultimately have "emitted s' = emitted s0 @ (es @ ys) \<and> SigFinished u KILLED \<in> set (es @ ys)"
    by simp
  then have 1: "\<exists>es. emitted s' = emitted s0 @ es \<and> SigFinished u KILLED \<in> set es"
    by blast
  from g obtain zs where "content (ioConsoles s' ! wd) = content (ioConsoles s ! wd) @ zs"
    unfolding grows_def by blast
  moreover from t obtain ms where "content (ioConsoles s ! wd) = content (ioConsoles s0 ! wd) @ ms"
    "IDEMessage timeoutMessage \<in> set ms"
    by (auto simp: timedOutSince_def)
  ultimately have "content (ioConsoles s' ! wd) = content (ioConsoles s0 ! wd) @ (ms @ zs) \<and>
      IDEMessage timeoutMessage \<in> set (ms @ zs)"
    by simp
  then have 2: "\<exists>ms. content (ioConsoles s' ! wd) = content (ioConsoles s0 ! wd) @ ms \<and>
      IDEMessage timeoutMessage \<in> set ms"
    by blast
  from t have "\<forall>item\<in>set (processes s). itemUuid s item \<noteq> u"
    by (simp add: timedOutSince_def getProcessIndex_def findIndex_None_iff)
  with g have 3: "getProcessIndex s' u = None"
    by (auto simp: getProcessIndex_def findIndex_None_iff grows_def frame_itemUuid [OF f])
  from 1 2 3 show ?thesis by (simp add: timedOutSince_def)
qed

lemma timedOutSince_earlier:
  "grows s0 s1 \<Longrightarrow> timedOutSince s1 u wd s \<Longrightarrow> timedOutSince s0 u wd s"
proof -
  assume g: "grows s0 s1" and t: "timedOutSince s1 u wd s"
  from g obtain ys where "emitted s1 = emitted s0 @ ys" by (auto simp: grows_def)
  moreover from t obtain es where "emitted s = emitted s1 @ es" "SigFinished u KILLED \<in> set es"
    by (auto simp: timedOutSince_def)
  ultimately have "emitted s = emitted s0 @ (ys @ es) \<and> SigFinished u KILLED \<in> set (ys @ es)"
    by simp
  then have 1: "\<exists>es. emitted s = emitted s0 @ es \<and> SigFinished u KILLED \<in> set es"
    by blast
  from g obtain zs where "content (ioConsoles s1 ! wd) = content (ioConsoles s0 ! wd) @ zs"
    unfolding grows_def by blast
  moreover from t obtain ms where "content (ioConsoles s ! wd) = content (ioConsoles s1 ! wd) @ ms"
    "IDEMessage timeoutMessage \<in> set ms"
    by (auto simp: timedOutSince_def)
  ultimately have "content (ioConsoles s ! wd) = content (ioConsoles s0 ! wd) @ (zs @ ms) \<and>
      IDEMessage timeoutMessage \<in> set (zs @ ms)"
    by simp
  then have 2: "\<exists>ms. content (ioConsoles s ! wd) = content (ioConsoles s0 ! wd) @ ms \<and>
      IDEMessage timeoutMessage \<in> set ms"
    by blast
  from 1 2 t show ?thesis by (simp add: timedOutSince_def)
qed

lemma prologueHaveWidgets_grows:
  "prologueHaveWidgets s \<Longrightarrow> grows s s' \<Longrightarrow> prologueHaveWidgets s'"
  unfolding prologueHaveWidgets_def grows_def
  by (auto simp: frame_state)

lemma grows_watch: "grows s (s\<lparr>prologueProcesses := pp\<rparr>)"
  by (rule grows_other_fields [where ys = "[]"]) simp_all

text \<open>The loop of the prologue timer runs to its end and only grows the state.\<close>

lemma prologueLoop_total:
  "k \<le> length (prologueProcesses s) \<Longrightarrow> prologueHaveWidgets s \<Longrightarrow>
   \<exists>need' s'. prologueLoop now k (need, s) = Inr (need', s') \<and> grows s s'"
proof (induction k arbitrary: need s)
  case 0
  show ?case by simp
next
  case (Suc k)
  from Suc.prems have k: "k < length (prologueProcesses s)" by simp
  obtain v startTime where vt: "prologueProcesses s ! k = (v, startTime)"
    by (cases "prologueProcesses s ! k")
  let ?sd = "s\<lparr>prologueProcesses := delIndex k (prologueProcesses s)\<rparr>"
  have gd: "grows s ?sd" by (rule grows_watch)
  have del: "\<exists>need' s'. prologueLoop now k (need, ?sd) = Inr (need', s') \<and> grows s s'"
  proof -
    have "k \<le> length (prologueProcesses ?sd)"
      using k by (simp add: length_delIndex)
    moreover from Suc.prems(2) gd have "prologueHaveWidgets ?sd"
      by (rule prologueHaveWidgets_grows)
    ultimately obtain need' s' where "prologueLoop now k (need, ?sd) = Inr (need', s')"
      "grows ?sd s'"
      using Suc.IH [of ?sd need] by blast
    with gd show ?thesis by (blast intro: grows_trans)
  qed
  have same: "\<exists>need' s'. prologueLoop now k (n, s) = Inr (need', s') \<and> grows s s'" for n
    using Suc.IH [of s n] k Suc.prems(2) by simp
  show ?case
  proof (cases "getProcessIndex s v")
    case None
    with k vt del show ?thesis by simp
  next
    case (Some j)
    let ?item = "processes s ! j"
    show ?thesis
    proof (cases "state (wrappers s (procWrapper ?item)) = Some STATE_PROLOGUE")
      case False
      with k vt Some del show ?thesis by (simp add: Let_def)
    next
      case True
      show ?thesis
      proof (cases "now k - startTime > HANDSHAKE_TIMEOUT")
        case False
        with k vt Some True same [of True] show ?thesis by (simp add: Let_def)
      next
        case late: True
        from Some have "j < length (processes s)"
          by (simp add: getProcessIndex_Some)
        then have "?item \<in> set (processes s)" by simp
        with Suc.prems(2) True obtain wd where wd: "widget ?item = Some wd"
          by (auto simp: prologueHaveWidgets_def)
        let ?s1 = "stop (procWrapper ?item) (updConsole wd (appendMsg (IDEMessage timeoutMessage)) s)"
        have g1: "grows s ?s1"
          by (rule grows_trans [OF grows_updConsole grows_stop])
        have "k \<le> length (prologueProcesses ?s1)"
          using k by simp
        moreover from Suc.prems(2) g1 have "prologueHaveWidgets ?s1"
          by (rule prologueHaveWidgets_grows)
        ultimately obtain need' s' where "prologueLoop now k (need, ?s1) = Inr (need', s')"
          "grows ?s1 s'"
          using Suc.IH [of ?s1 need] by blast
        with g1 have "prologueLoop now k (need, ?s1) = Inr (need', s') \<and> grows s s'"
          by (blast intro: grows_trans)
        with k vt Some True late wd show ?thesis by (simp add: Let_def)
      qed
    qed
  qed
qed

lemma did_not_start: "\<exists>pre post. timeoutMessage = pre @ ''did not start'' @ post"
proof -
  have "timeoutMessage = ''Timeout: the process '' @ ''did not start'' @ ''; killing the process.''"
    by (simp add: timeoutMessage_def)
  then show ?thesis by blast
qed

lemma prologueLoop_timeout:
  "k \<le> length (prologueProcesses s) \<Longrightarrow> p < k \<Longrightarrow>
   prologueProcesses s ! p = (u, startTime) \<Longrightarrow> now p - startTime > HANDSHAKE_TIMEOUT \<Longrightarrow>
   List.find (\<lambda>item. itemUuid s item = u) (processes s) = Some item0 \<Longrightarrow>
   state (wrappers s (procWrapper item0)) = Some STATE_PROLOGUE \<Longrightarrow>
   widget item0 = Some wd \<Longrightarrow>
   prologueHaveWidgets s \<Longrightarrow>
   distinct (map (itemUuid s) (processes s)) \<Longrightarrow>
   distinct (map fst (prologueProcesses s)) \<Longrightarrow>
   wd < length (ioConsoles s) \<Longrightarrow>
   \<exists>need' s'. prologueLoop now k (need, s) = Inr (need', s') \<and> timedOutSince s u wd s'"
proof (induction k arbitrary: need s)
  case 0
  then show ?case by simp
next
  case (Suc k)
  let ?pp = "prologueProcesses s"
  from Suc.prems(1) have k: "k < length ?pp" by simp
  from find_findIndex [OF Suc.prems(5)] obtain j where
    j: "getProcessIndex s u = Some j" "processes s ! j = item0"
    by (auto simp: getProcessIndex_def)
  then have jl: "j < length (processes s)" and ju: "itemUuid s item0 = u"
    using getProcessIndex_Some [of s u j] by auto
  show ?case
  proof (cases "k = p")
    case True
    let ?sc = "updConsole wd (appendMsg (IDEMessage timeoutMessage)) s"
    let ?s1 = "stop (procWrapper item0) ?sc"
    have step: "prologueLoop now (Suc k) (need, s) = prologueLoop now k (need, ?s1)"
      using k True Suc.prems(3,4,6,7) j by (simp add: Let_def)
    have g: "grows ?sc ?s1" by (rule grows_stop)
    have gs: "grows s ?s1" by (rule grows_trans [OF grows_updConsole g])
    then have f: "frame s ?s1" by (simp add: grows_def)
    have "emitted ?s1 = emitted s @ [SigFinished u KILLED]"
      using ju by (simp add: emitted_stop itemUuid_def)
    then have e: "\<exists>es. emitted ?s1 = emitted s @ es \<and> SigFinished u KILLED \<in> set es"
      by simp
    have "content (ioConsoles ?sc ! wd) = content (ioConsoles s ! wd) @ [IDEMessage timeoutMessage]"
      using Suc.prems(11) by (simp add: updConsole_def appendMsg_def)
    moreover from g obtain zs where
      "content (ioConsoles ?s1 ! wd) = content (ioConsoles ?sc ! wd) @ zs"
      unfolding grows_def by blast
    ultimately have "content (ioConsoles ?s1 ! wd) =
        content (ioConsoles s ! wd) @ (IDEMessage timeoutMessage # zs) \<and>
        IDEMessage timeoutMessage \<in> set (IDEMessage timeoutMessage # zs)"
      by simp
    then have c: "\<exists>ms. content (ioConsoles ?s1 ! wd) = content (ioConsoles s ! wd) @ ms \<and>
        IDEMessage timeoutMessage \<in> set ms"
      by blast
    have "getProcessIndex ?sc (procuuid (wrappers ?sc (procWrapper item0))) = Some j"
      using j(1) ju by (simp add: getProcessIndex_def itemUuid_def)
    then have p1: "processes ?s1 = delIndex j (processes s)"
      by (simp add: processes_stop)
    have "\<forall>item\<in>set (processes ?s1). itemUuid ?s1 item \<noteq> u"
    proof
      fix item assume "item \<in> set (processes ?s1)"
      with p1 have "item \<in> set (delIndex j (processes s))" by simp
      with Suc.prems(9) jl have "itemUuid s item \<noteq> itemUuid s (processes s ! j)"
        by (rule distinct_delIndex_other)
      with j(2) ju show "itemUuid ?s1 item \<noteq> u"
        by (simp add: frame_itemUuid [OF f])
    qed
    then have n: "getProcessIndex ?s1 u = None"
      by (simp add: getProcessIndex_def findIndex_None_iff)
    from e c n have t1: "timedOutSince s u wd ?s1"
      by (simp add: timedOutSince_def)
    have "k \<le> length (prologueProcesses ?s1)"
      using k by simp
    moreover from Suc.prems(8) gs have "prologueHaveWidgets ?s1"
      by (rule prologueHaveWidgets_grows)
    ultimately obtain need' s' where r: "prologueLoop now k (need, ?s1) = Inr (need', s')"
      and "grows ?s1 s'"
      using prologueLoop_total [of k ?s1 now need] by blast
    with t1 have "timedOutSince s u wd s'" by (blast intro: timedOutSince_grows)
    with step r show ?thesis by simp
  next
    case False
    with Suc.prems(2) have pk: "p < k" by simp
    obtain v t where vt: "?pp ! k = (v, t)" by (cases "?pp ! k")
    have vu: "v \<noteq> u"
    proof
      assume "v = u"
      with vt Suc.prems(3) have "map fst ?pp ! k = map fst ?pp ! p"
        using k pk by simp
      moreover have "k < length (map fst ?pp)" "p < length (map fst ?pp)"
        using k pk by simp_all
      ultimately have "k = p"
        using nth_eq_iff_index_eq [OF Suc.prems(10)] by blast
      with pk show False by simp
    qed
    let ?sd = "s\<lparr>prologueProcesses := delIndex k ?pp\<rparr>"
    have "\<exists>need' s'. prologueLoop now k (need, ?sd) = Inr (need', s') \<and> timedOutSince ?sd u wd s'"
    proof (rule Suc.IH)
      show "k \<le> length (prologueProcesses ?sd)"
        using k by (simp add: length_delIndex)
      show "p < k" by (rule pk)
      show "prologueProcesses ?sd ! p = (u, startTime)"
        using pk k Suc.prems(3) by (simp add: nth_delIndex_below)
      show "now p - startTime > HANDSHAKE_TIMEOUT" by (rule Suc.prems(4))
      show "List.find (\<lambda>item. itemUuid ?sd item = u) (processes ?sd) = Some item0"
        using Suc.prems(5) by (simp add: itemUuid_def)
      show "state (wrappers ?sd (procWrapper item0)) = Some STATE_PROLOGUE"
        using Suc.prems(6) by simp
      show "widget item0 = Some wd" by (rule Suc.prems(7))
      show "prologueHaveWidgets ?sd"
        using Suc.prems(8) by (simp add: prologueHaveWidgets_def)
      show "distinct (map (itemUuid ?sd) (processes ?sd))"
        using Suc.prems(9) by (simp add: itemUuid_def [abs_def])
      show "distinct (map fst (prologueProcesses ?sd))"
        using Suc.prems(10) by (simp add: distinct_map_delIndex)
      show "wd < length (ioConsoles ?sd)"
        using Suc.prems(11) by simp
    qed
    then have del: "\<exists>need' s'. prologueLoop now k (need, ?sd) = Inr (need', s') \<and>
        timedOutSince s u wd s'"
      using timedOutSince_earlier [OF grows_watch [of s "delIndex k ?pp"]] by blast
    have same: "\<exists>need' s'. prologueLoop now k (n, s) = Inr (need', s') \<and> timedOutSince s u wd s'" for n
      using Suc.IH [of s n] k pk Suc.prems(3-11) by simp
    show ?thesis
    proof (cases "getProcessIndex s v")
      case None
      with k vt del show ?thesis by simp
    next
      case (Some j')
      let ?item = "processes s ! j'"
      from Some have j': "j' < length (processes s)" "itemUuid s ?item = v"
        using getProcessIndex_Some [of s v j'] by auto
      show ?thesis
      proof (cases "state (wrappers s (procWrapper ?item)) = Some STATE_PROLOGUE")
        case False
        with k vt Some del show ?thesis by (simp add: Let_def)
      next
        case True
        show ?thesis
        proof (cases "now k - t > HANDSHAKE_TIMEOUT")
          case False
          with k vt Some True same [of True] show ?thesis by (simp add: Let_def)
        next
          case late: True
          from j'(1) have "?item \<in> set (processes s)" by simp
          with Suc.prems(8) True obtain wd' where wd': "widget ?item = Some wd'"
            by (auto simp: prologueHaveWidgets_def)
          let ?sc = "updConsole wd' (appendMsg (IDEMessage timeoutMessage)) s"
          let ?s1 = "stop (procWrapper ?item) ?sc"
          have step: "prologueLoop now (Suc k) (need, s) = prologueLoop now k (need, ?s1)"
            using k vt Some True late wd' by (simp add: Let_def)
          have gs: "grows s ?s1"
            by (rule grows_trans [OF grows_updConsole grows_stop])
          then have f: "frame s ?s1" by (simp add: grows_def)
          have "getProcessIndex ?sc (procuuid (wrappers ?sc (procWrapper ?item))) = Some j'"
            using Some j'(2) by (simp add: getProcessIndex_def itemUuid_def)
          then have p1: "processes ?s1 = delIndex j' (processes s)"
            by (simp add: processes_stop)
          have "\<exists>need' s'. prologueLoop now k (need, ?s1) = Inr (need', s') \<and>
              timedOutSince ?s1 u wd s'"
          proof (rule Suc.IH)
            show "k \<le> length (prologueProcesses ?s1)"
              using k by simp
            show "p < k" by (rule pk)
            show "prologueProcesses ?s1 ! p = (u, startTime)"
              using Suc.prems(3) by simp
            show "now p - startTime > HANDSHAKE_TIMEOUT" by (rule Suc.prems(4))
            show "List.find (\<lambda>item. itemUuid ?s1 item = u) (processes ?s1) = Some item0"
              using Suc.prems(5) j' vu
              by (simp add: p1 frame_itemUuid [OF f] find_delIndex_other)
            show "state (wrappers ?s1 (procWrapper item0)) = Some STATE_PROLOGUE"
              using Suc.prems(6) by (simp add: frame_state [OF f])
            show "widget item0 = Some wd" by (rule Suc.prems(7))
            show "prologueHaveWidgets ?s1"
              using Suc.prems(8) gs by (rule prologueHaveWidgets_grows)
            show "distinct (map (itemUuid ?s1) (processes ?s1))"
              using Suc.prems(9) by (simp add: p1 frame_itemUuid [OF f] distinct_map_delIndex)
            show "distinct (map fst (prologueProcesses ?s1))"
              using Suc.prems(10) by simp
            show "wd < length (ioConsoles ?s1)"
              using Suc.prems(11) gs by (simp add: length_ioConsoles_grows)
          qed
          then have "\<exists>need' s'. prologueLoop now k (need, ?s1) = Inr (need', s') \<and>
              timedOutSince s u wd s'"
            using timedOutSince_earlier [OF gs] by blast
          with step show ?thesis by simp
        qed
      qed
    qed
  qed
qed

text \<open>The launch of the example, left alone for sixteen seconds.\<close>

lemma sysLaunched_fields:
  "prologueProcesses sysLaunched = [(''c1'', 0)]"
  "processes sysLaunched = [\<lparr>procWrapper = 0, widget = Some 0, kind = RUN\<rparr>]"
  "state (wrappers sysLaunched 0) = Some STATE_PROLOGUE"
  "procuuid (wrappers sysLaunched 0) = ''c1''"
  "length (ioConsoles sysLaunched) = 1"
  "prologueTimer sysLaunched = True"
  by (simp_all add: eval_defs)

lemma scenario_timeout:
  "\<exists>s'. onPrologueTimer (\<lambda>index. 16) sysLaunched = Inr s' \<and>
        emitted s' = [SigFinished ''c1'' KILLED] \<and>
        content (ioConsoles s' ! 0) =
          [IDEMessage ''Starting script.py...'', IDEMessage timeoutMessage, ScriptFinished,
           IDEMessage ''Script killed''] \<and>
        processes s' = [] \<and> prologueTimer s' = False"
  by (simp add: onPrologueTimer_def HANDSHAKE_TIMEOUT_def eval_defs)

text \<open>
  C8: let the ids of the registry be distinct, and those of the watch list of the
  prologue timer, and let every entry in the Prologue state have a console. If a tracked
  entry is on the watch list, its wrapper is still in the Prologue state, and the clock
  reading of its round is more than \<^verbatim>\<open>HANDSHAKE_TIMEOUT\<close> = 15 seconds after its
  launch, then the firing of the prologue timer returns, appends to the console of the
  entry the message that the process did not start, emits \<^verbatim>\<open>finished\<close> with the id of
  the entry and \<^verbatim>\<open>KILLED\<close>, and leaves no entry with that id in the registry.
\<close>

theorem C8_prologue_timeout_stops_the_entry:
  assumes "p < length (prologueProcesses s)" and "prologueProcesses s ! p = (u, startTime)"
    and "now p - startTime > HANDSHAKE_TIMEOUT"
    and "getProcessIndex s u = Some j"
    and "state (wrappers s (procWrapper (processes s ! j))) = Some STATE_PROLOGUE"
    and "widget (processes s ! j) = Some wd" and "wd < length (ioConsoles s)"
    and "prologueHaveWidgets s"
    and "distinct (map (itemUuid s) (processes s))"
    and "distinct (map fst (prologueProcesses s))"
  shows "\<exists>s'. onPrologueTimer now s = Inr s'
     \<and> (\<exists>es. emitted s' = emitted s @ es \<and> SigFinished u KILLED \<in> set es)
     \<and> (\<exists>ms. content (ioConsoles s' ! wd) = content (ioConsoles s ! wd) @ ms \<and>
              IDEMessage timeoutMessage \<in> set ms)
     \<and> (\<exists>pre post. timeoutMessage = pre @ ''did not start'' @ post)
     \<and> getProcessIndex s' u = None"
proof -
  let ?s0 = "s\<lparr>prologueTimer := False\<rparr>"
  note p = assms(1,2)
  have "\<exists>need' s'. prologueLoop now (length (prologueProcesses ?s0)) (False, ?s0) = Inr (need', s')
      \<and> timedOutSince ?s0 u wd s'"
  proof (rule prologueLoop_timeout)
    show "length (prologueProcesses ?s0) \<le> length (prologueProcesses ?s0)" by simp
    show "p < length (prologueProcesses ?s0)" using p(1) by simp
    show "prologueProcesses ?s0 ! p = (u, startTime)" using p(2) by simp
    show "now p - startTime > HANDSHAKE_TIMEOUT" by (rule assms(3))
    show "List.find (\<lambda>item. itemUuid ?s0 item = u) (processes ?s0) = Some (processes s ! j)"
      using findIndex_find [of "\<lambda>item. itemUuid s item = u" "processes s" j] assms(4)
      by (simp add: getProcessIndex_def itemUuid_def)
    show "state (wrappers ?s0 (procWrapper (processes s ! j))) = Some STATE_PROLOGUE"
      using assms(5) by simp
    show "widget (processes s ! j) = Some wd" by (rule assms(6))
    show "prologueHaveWidgets ?s0"
      using assms(8) by (simp add: prologueHaveWidgets_def)
    show "distinct (map (itemUuid ?s0) (processes ?s0))"
      using assms(9) by (simp add: itemUuid_def [abs_def])
    show "distinct (map fst (prologueProcesses ?s0))"
      using assms(10) by simp
    show "wd < length (ioConsoles ?s0)"
      using assms(7) by simp
  qed
  then obtain need' s1 where l: "prologueLoop now (length (prologueProcesses s)) (False, ?s0) =
      Inr (need', s1)" and t: "timedOutSince ?s0 u wd s1"
    by auto
  let ?s' = "if need' then s1\<lparr>prologueTimer := True\<rparr> else s1"
  from l have r: "onPrologueTimer now s = Inr ?s'"
    by (simp add: onPrologueTimer_def)
  from t have "(\<exists>es. emitted ?s' = emitted s @ es \<and> SigFinished u KILLED \<in> set es)
     \<and> (\<exists>ms. content (ioConsoles ?s' ! wd) = content (ioConsoles s ! wd) @ ms \<and>
              IDEMessage timeoutMessage \<in> set ms)
     \<and> getProcessIndex ?s' u = None"
    by (simp add: timedOutSince_def getProcessIndex_def itemUuid_def)
  with r did_not_start show ?thesis
    by blast
qed

text \<open>The theorem at the launch of the example, sixteen seconds later.\<close>

theorem C8_witness:
  "0 < length (prologueProcesses sysLaunched)
   \<and> prologueProcesses sysLaunched ! 0 = (''c1'', 0)
   \<and> (16::real) - 0 > HANDSHAKE_TIMEOUT
   \<and> getProcessIndex sysLaunched ''c1'' = Some 0
   \<and> state (wrappers sysLaunched (procWrapper (processes sysLaunched ! 0))) = Some STATE_PROLOGUE
   \<and> widget (processes sysLaunched ! 0) = Some 0
   \<and> prologueHaveWidgets sysLaunched
   \<and> distinct (map (itemUuid sysLaunched) (processes sysLaunched))
   \<and> distinct (map fst (prologueProcesses sysLaunched))
   \<and> (\<exists>s'. onPrologueTimer (\<lambda>index. 16) sysLaunched = Inr s'
        \<and> (\<exists>es. emitted s' = emitted sysLaunched @ es \<and> SigFinished ''c1'' KILLED \<in> set es)
        \<and> (\<exists>ms. content (ioConsoles s' ! 0) = content (ioConsoles sysLaunched ! 0) @ ms \<and>
                 IDEMessage timeoutMessage \<in> set ms)
        \<and> getProcessIndex s' ''c1'' = None)"
proof -
  have h: "0 < length (prologueProcesses sysLaunched)"
    "prologueProcesses sysLaunched ! 0 = (''c1'', 0)"
    "(\<lambda>index::nat. 16::real) 0 - 0 > HANDSHAKE_TIMEOUT"
    "getProcessIndex sysLaunched ''c1'' = Some 0"
    "state (wrappers sysLaunched (procWrapper (processes sysLaunched ! 0))) = Some STATE_PROLOGUE"
    "widget (processes sysLaunched ! 0) = Some 0"
    "0 < length (ioConsoles sysLaunched)"
    "prologueHaveWidgets sysLaunched"
    "distinct (map (itemUuid sysLaunched) (processes sysLaunched))"
    "distinct (map fst (prologueProcesses sysLaunched))"
    by (simp_all add: sysLaunched_fields HANDSHAKE_TIMEOUT_def getProcessIndex_def itemUuid_def
        prologueHaveWidgets_def)
  from C8_prologue_timeout_stops_the_entry [OF h] h show ?thesis
    by blast
qed

section \<open>C1: the finished events of a launch\<close>

lemma getProcessIndex_after_finish:
  assumes "distinct (map (itemUuid s) (processes s))"
  shows "getProcessIndex (onProcessFinished u c s) u = None"
proof (cases "getProcessIndex s u")
  case None
  then show ?thesis by (simp add: onProcessFinished_def)
next
  case (Some j)
  let ?s' = "onProcessFinished u c s"
  from Some have j: "j < length (processes s)" "itemUuid s (processes s ! j) = u"
    using getProcessIndex_Some [of s u j] by auto
  have f: "frame s ?s'" by (rule frame_onProcessFinished)
  from Some have p: "processes ?s' = delIndex j (processes s)"
    by (simp add: processes_onProcessFinished)
  have "\<forall>item\<in>set (processes ?s'). itemUuid ?s' item \<noteq> u"
  proof
    fix item assume "item \<in> set (processes ?s')"
    with p have "item \<in> set (delIndex j (processes s))" by simp
    with assms j(1) have "itemUuid s item \<noteq> itemUuid s (processes s ! j)"
      by (rule distinct_delIndex_other)
    with j(2) show "itemUuid ?s' item \<noteq> u"
      by (simp add: frame_itemUuid [OF f])
  qed
  then show ?thesis
    by (simp add: getProcessIndex_def findIndex_None_iff)
qed

lemma emitted_exit_code:
  assumes "clientSocket (wrappers s a) \<noteq> None"
    and "subscript params ''exitCode'' = Inr (JInt code)" and "inCInt code"
  shows "\<exists>s'. handleMessage a METHOD_EPILOGUE_EXIT_CODE params s = Inr s'
           \<and> emitted s' = emitted s @ [SigFinished (procuuid (wrappers s a)) code]"
proof -
  from assms(1) obtain sock where sock: "clientSocket (wrappers s a) = Some sock" by auto
  let ?s1 = "updWrapper a (\<lambda>w. w\<lparr>clientSocket := Some (sock\<lparr>slots := False,
      sent := sent sock @ [(METHOD_EPILOGUE_EXIT, procuuid (wrappers s a), JNull)]\<rparr>)\<rparr>) s"
  from sock have se: "sendExit a s = Inr ?s1"
    by (simp add: sendExit_def Let_def sendJSONCommand_def updWrapper_def disconnectSocket_def)
  with assms(2,3) have h: "handleMessage a METHOD_EPILOGUE_EXIT_CODE params s =
      Inr (emitFinished a code ?s1)"
    by (simp add: handleMessage_def)
  have "emitted (emitFinished a code ?s1) = emitted s @ [SigFinished (procuuid (wrappers s a)) code]"
    by (simp add: emitted_emitFinished wrappers_updWrapper)
  with h show ?thesis by simp
qed

lemma emitted_onWaitTimer: "\<exists>s'. onWaitTimer s = Inr s' \<and> emitted s' = emitted s"
proof -
  let ?s0 = "s\<lparr>waitTimer := False\<rparr>"
  have "length (processes ?s0) \<le> length (processes ?s0)" by simp
  from waitTimerLoop_filter [OF this, of False]
  obtain need s1 where l: "waitTimerLoop (length (processes ?s0)) (False, ?s0) = Inr (need, s1)"
    and e: "emitted s1 = emitted ?s0"
    by simp
  from l have "onWaitTimer s = Inr (if need then s1\<lparr>waitTimer := True\<rparr> else s1)"
    by (simp add: onWaitTimer_def)
  with e show ?thesis by simp
qed

text \<open>
  C1, as the spec states it, asks for one finished event for every launch, with a code
  that is \<^verbatim>\<open>KILLED\<close>, \<^verbatim>\<open>DISCONNECTED\<close> or at least 0. Three runs do otherwise: a launch
  that is not redirected ends, and is dropped by the poll timer, with no event at all; a
  connected child whose socket disconnects and that is then stopped has two events; and
  a child that reports the exit code -5 has an event with the code -5.
\<close>

theorem C1_counterexample_zero_two_or_negative:
  "(case onWaitTimer (updWrapper 0 (\<lambda>w. w\<lparr>proc := Some Exited\<rparr>) sysDetached) of
      Inl es \<Rightarrow> False
    | Inr s' \<Rightarrow> processes s' = [] \<and> emitted s' = [])
   \<and> emitted (stop 0 (disconnected 0 sysRunning)) =
        [SigFinished ''c1'' DISCONNECTED, SigFinished ''c1'' KILLED]
   \<and> (case parseClientLine 0
             (arrive 0 [Message METHOD_EPILOGUE_EXIT_CODE ''c1'' (JDict [(''exitCode'', JInt (- 5))])]
                sysRunning) of
         Inl es \<Rightarrow> False
       | Inr s' \<Rightarrow> emitted s' = [SigFinished ''c1'' (- 5)])
   \<and> (- 5 :: int) \<noteq> KILLED \<and> (- 5 :: int) \<noteq> DISCONNECTED \<and> \<not> (- 5 :: int) \<ge> 0"
proof -
  have 1: "(case onWaitTimer (updWrapper 0 (\<lambda>w. w\<lparr>proc := Some Exited\<rparr>) sysDetached) of
      Inl es \<Rightarrow> False
    | Inr s' \<Rightarrow> processes s' = [] \<and> emitted s' = [])"
    by (simp add: onWaitTimer_def sysDetached_def launchDetached_def eval_defs waitDetached_def)
  have e: "emitted sysRunning = []"
    by (simp add: eval_defs eval_defs2 parseClientLine.simps)
  have 2: "emitted (stop 0 (disconnected 0 sysRunning)) =
        [SigFinished ''c1'' DISCONNECTED, SigFinished ''c1'' KILLED]"
  proof -
    have "procuuid (wrappers (disconnected 0 sysRunning) 0) = procuuid (wrappers sysRunning 0)"
      by (rule frame_procuuid [OF frame_disconnected])
    then show ?thesis
      by (simp add: emitted_stop emitted_disconnected e sysRunning_wrapper)
  qed
  have 3: "(case parseClientLine 0
             (arrive 0 [Message METHOD_EPILOGUE_EXIT_CODE ''c1'' (JDict [(''exitCode'', JInt (- 5))])]
                sysRunning) of
         Inl es \<Rightarrow> False
       | Inr s' \<Rightarrow> emitted s' = [SigFinished ''c1'' (- 5)])"
    by (simp add: parseClientLine.simps [of 0] arrive_def updWrapper_def sysRunning_wrapper
        sysRunning_processes e tryMessage_def handleMessage_def sendExit_def sendJSONCommand_def
        disconnectSocket_def readLine_def Let_def emitFinished_def onProcessFinished_def
        getProcessIndex_def itemUuid_def itemRedirected_def finishConsole_def updConsole_def
        appendMsg_def KILLED_def DISCONNECTED_def wait_def closeSocket_def delIndex_def
        inCInt_def)
  from 1 2 3 show ?thesis
    by (simp add: KILLED_def DISCONNECTED_def)
qed

text \<open>
  C1, amended: every call of \<^verbatim>\<open>stop\<close> appends exactly one finished event, with the id of
  the wrapper and \<^verbatim>\<open>KILLED\<close>, and every disconnect notification exactly one, with
  \<^verbatim>\<open>DISCONNECTED\<close>, whatever was emitted before. Every exit-code message handled on an
  attached socket whose \<^verbatim>\<open>exitCode\<close> is an integer in the range of a C++ int appends
  exactly one, with the code as the child sent it, a negative one included. A firing of
  the poll timer, which drops the launches that are not redirected and have ended,
  appends none. When the ids of the registry are distinct, the handler of the run manager
  leaves no entry with the id of the event, and a further event for the id changes nothing.
\<close>

theorem C1_finished_events:
  "emitted (stop a s) = emitted s @ [SigFinished (procuuid (wrappers s a)) KILLED]
   \<and> emitted (disconnected a s) = emitted s @ [SigFinished (procuuid (wrappers s a)) DISCONNECTED]
   \<and> (clientSocket (wrappers s a) \<noteq> None \<and> subscript params ''exitCode'' = Inr (JInt code) \<and>
      inCInt code \<longrightarrow>
        (\<exists>s'. handleMessage a METHOD_EPILOGUE_EXIT_CODE params s = Inr s'
           \<and> emitted s' = emitted s @ [SigFinished (procuuid (wrappers s a)) code]))
   \<and> (\<exists>s'. onWaitTimer s = Inr s' \<and> emitted s' = emitted s)
   \<and> (distinct (map (itemUuid s) (processes s)) \<longrightarrow>
        getProcessIndex (onProcessFinished u c s) u = None \<and>
        onProcessFinished u c' (onProcessFinished u c s) = onProcessFinished u c s)"
proof (intro conjI impI)
  show "emitted (stop a s) = emitted s @ [SigFinished (procuuid (wrappers s a)) KILLED]"
    by (rule emitted_stop)
  show "emitted (disconnected a s) = emitted s @ [SigFinished (procuuid (wrappers s a)) DISCONNECTED]"
    by (rule emitted_disconnected)
  show "\<exists>s'. handleMessage a METHOD_EPILOGUE_EXIT_CODE params s = Inr s'
           \<and> emitted s' = emitted s @ [SigFinished (procuuid (wrappers s a)) code]"
    if "clientSocket (wrappers s a) \<noteq> None \<and> subscript params ''exitCode'' = Inr (JInt code) \<and>
      inCInt code"
    using that by (blast intro: emitted_exit_code)
  show "\<exists>s'. onWaitTimer s = Inr s' \<and> emitted s' = emitted s"
    by (rule emitted_onWaitTimer)
  show "getProcessIndex (onProcessFinished u c s) u = None"
    if "distinct (map (itemUuid s) (processes s))"
    using that by (rule getProcessIndex_after_finish)
  show "onProcessFinished u c' (onProcessFinished u c s) = onProcessFinished u c s"
    if "distinct (map (itemUuid s) (processes s))"
  proof -
    from that have "getProcessIndex (onProcessFinished u c s) u = None"
      by (rule getProcessIndex_after_finish)
    then show ?thesis
      by (simp add: onProcessFinished_def [of u c' "onProcessFinished u c s"])
  qed
qed

text \<open>The theorem at the connected child of the example, with the exit code 3.\<close>

theorem C1_witness:
  "clientSocket (wrappers sysRunning 0) \<noteq> None
   \<and> subscript (JDict [(''exitCode'', JInt 3)]) ''exitCode'' = Inr (JInt 3)
   \<and> inCInt 3
   \<and> distinct (map (itemUuid sysRunning) (processes sysRunning))
   \<and> emitted (stop 0 sysRunning) = [SigFinished ''c1'' KILLED]
   \<and> emitted (disconnected 0 sysRunning) = [SigFinished ''c1'' DISCONNECTED]
   \<and> (\<exists>s'. handleMessage 0 METHOD_EPILOGUE_EXIT_CODE (JDict [(''exitCode'', JInt 3)]) sysRunning =
             Inr s' \<and> emitted s' = [SigFinished ''c1'' 3])
   \<and> (\<exists>s'. onWaitTimer sysRunning = Inr s' \<and> emitted s' = [])
   \<and> getProcessIndex (onProcessFinished ''c1'' 3 sysRunning) ''c1'' = None
   \<and> onProcessFinished ''c1'' KILLED (onProcessFinished ''c1'' 3 sysRunning) =
        onProcessFinished ''c1'' 3 sysRunning"
proof -
  have e: "emitted sysRunning = []"
    by (simp add: eval_defs eval_defs2 parseClientLine.simps)
  have h: "clientSocket (wrappers sysRunning 0) \<noteq> None"
    "subscript (JDict [(''exitCode'', JInt 3)]) ''exitCode'' = Inr (JInt 3)"
    "inCInt 3"
    "distinct (map (itemUuid sysRunning) (processes sysRunning))"
    "procuuid (wrappers sysRunning 0) = ''c1''"
    by (simp_all add: sysRunning_wrapper sysRunning_processes inCInt_def)
  from C1_finished_events [of 0 sysRunning "JDict [(''exitCode'', JInt 3)]" 3 "''c1''" 3 KILLED] h e
  show ?thesis
    by simp
qed

end
